theory Spec2Isabelle
  imports Complex_Main "HOL-Library.AList"
begin

section \<open>Document model\<close>

text \<open>
  The engine works on a ProseMirror document. The model keeps the part of the tree the
  engine reads and writes: a document is the list of its tables in document order, a
  table holds rows directly or inside row groups (\<open>tableRowGroup\<close>), a row holds cells
  and a cell holds blocks. Tables are not nested, and the real \<open>colspan\<close>/\<open>rowspan\<close>
  attributes of the host are 1 everywhere (the engine only writes the \<open>rm\<close>-prefixed ones).

  A ProseMirror position that the source uses to address a node is modelled by the index
  of that node: a row by its index in the document-order list of all rows, a table by
  its index in the document, a row group by (table index, child index), a cell by
  (row index, cell index). Positions inside a cell are offsets from the start of the
  cell's content, counted with the host's \<open>nodeSize\<close>.
\<close>

datatype inline = Chr char | HardBreak | InlineLeaf string

datatype block =
    Textblock string string "inline list"
  | Container string "block list"
  | LeafBlock string

datatype hide_mode = HideNone | HideHidden

datatype cell_type = TableCell | TableHeader

record cell =
  cellType :: cell_type
  rmCellId :: "string option"
  rmMergeOrigin :: bool
  rmMergedTo :: "string option"
  rmHideMode :: "hide_mode option"
  rmColspan :: int
  rmRowspan :: int
  content :: "block list"

record row =
  rmRowId :: "string option"
  rmLinkedPrev :: "string option"
  rmLinkedNext :: "string option"
  cells :: "cell list"

datatype tchild = TRow row | TGroup "row list"

record table =
  locked :: bool
  children :: "tchild list"

type_synonym doc = "table list"

subsection \<open>Node sizes, text content and type names\<close>

fun inline_name :: "inline \<Rightarrow> string" where
  "inline_name (Chr c) = ''text''"
| "inline_name HardBreak = ''hardBreak''"
| "inline_name (InlineLeaf n) = n"

fun inline_text :: "inline \<Rightarrow> string" where
  "inline_text (Chr c) = [c]"
| "inline_text HardBreak = []"
| "inline_text (InlineLeaf n) = []"


fun nodeSize :: "block \<Rightarrow> nat" where
  "nodeSize (Textblock t a is) = 2 + length is"
| "nodeSize (Container n bs) = 2 + sum_list (map nodeSize bs)"
| "nodeSize (LeafBlock n) = 1"


fun textContent :: "block \<Rightarrow> string" where
  "textContent (Textblock t a is) = concat (map inline_text is)"
| "textContent (Container n bs) = concat (map textContent bs)"
| "textContent (LeafBlock n) = []"

definition cell_textContent :: "block list \<Rightarrow> string" where
  "cell_textContent bs = concat (map textContent bs)"


fun block_name :: "block \<Rightarrow> string" where
  "block_name (Textblock t a is) = t"
| "block_name (Container n bs) = n"
| "block_name (LeafBlock n) = n"

fun content_size :: "block \<Rightarrow> nat" where
  "content_size (Textblock t a is) = length is"
| "content_size (Container n bs) = sum_list (map nodeSize bs)"
| "content_size (LeafBlock n) = 0"

subsection \<open>JavaScript strings\<close>

text \<open>
  A character of the model is a code unit below 256. \<open>String.prototype.trim\<close> strips
  white space and line terminators; below 256 these are tab, line feed, vertical tab,
  form feed, carriage return, space and the no-break space.
\<close>

definition is_ws :: "char \<Rightarrow> bool" where
  "is_ws c = (c = CHR 0x20 \<or> c = CHR 0x09 \<or> c = CHR 0x0A \<or> c = CHR 0x0B \<or> c = CHR 0x0C \<or> c = CHR 0x0D
              \<or> c = CHR 0xA0)"

definition trim :: "string \<Rightarrow> string" where
  "trim s = rev (dropWhile is_ws (rev (dropWhile is_ws s)))"

definition asStringOrNull :: "string option \<Rightarrow> string option" where
  "asStringOrNull v =
     (case v of None \<Rightarrow> None
      | Some s \<Rightarrow> (let t = trim s in if length t \<noteq> 0 then Some t else None))"

definition truthy :: "string option \<Rightarrow> bool" where
  "truthy v = (case v of None \<Rightarrow> False | Some s \<Rightarrow> s \<noteq> [])"

subsection \<open>Rows of a document, in document order\<close>

fun child_rows :: "tchild \<Rightarrow> row list" where
  "child_rows (TRow r) = [r]"
| "child_rows (TGroup rs) = rs"

definition table_rows :: "table \<Rightarrow> row list" where
  "table_rows t = concat (map child_rows (children t))"

definition doc_rows :: "doc \<Rightarrow> row list" where
  "doc_rows d = concat (map table_rows d)"

fun child_ctx :: "nat \<Rightarrow> nat \<Rightarrow> tchild \<Rightarrow> (row \<times> nat \<times> (nat \<times> nat) option) list" where
  "child_ctx ti ci (TRow r) = [(r, ti, None)]"
| "child_ctx ti ci (TGroup rs) = map (\<lambda>r. (r, ti, Some (ti, ci))) rs"

definition table_ctx :: "nat \<Rightarrow> table \<Rightarrow> (row \<times> nat \<times> (nat \<times> nat) option) list" where
  "table_ctx ti t = concat (map (\<lambda>(ci, c). child_ctx ti ci c) (enumerate 0 (children t)))"

definition doc_ctx :: "doc \<Rightarrow> (row \<times> nat \<times> (nat \<times> nat) option) list" where
  "doc_ctx d = concat (map (\<lambda>(ti, t). table_ctx ti t) (enumerate 0 d))"

subsection \<open>Transactions on rows\<close>

text \<open>
  \<open>setRowMarkup n f\<close> is \<open>tr.setNodeMarkup\<close> at the row with document-order index \<open>n\<close>,
  \<open>deleteRow n\<close> is \<open>tr.deleteRange(rowPos, rowPos + nodeSize)\<close> on that row and
  \<open>insertRowAfter n r\<close> is \<open>tr.insert(rowPos + nodeSize, r)\<close>: the new row becomes the
  next sibling of row \<open>n\<close> inside the same parent (table or row group).
\<close>

fun setRowMarkup_children :: "nat \<Rightarrow> (row \<Rightarrow> row) \<Rightarrow> tchild list \<Rightarrow> tchild list" where
  "setRowMarkup_children n f [] = []"
| "setRowMarkup_children n f (TRow r # cs) =
     (if n = 0 then TRow (f r) # cs else TRow r # setRowMarkup_children (n - 1) f cs)"
| "setRowMarkup_children n f (TGroup rs # cs) =
     (if n < length rs then TGroup (rs[n := f (rs ! n)]) # cs
      else TGroup rs # setRowMarkup_children (n - length rs) f cs)"

fun setRowMarkup :: "nat \<Rightarrow> (row \<Rightarrow> row) \<Rightarrow> doc \<Rightarrow> doc" where
  "setRowMarkup n f [] = []"
| "setRowMarkup n f (t # ts) =
     (if n < length (table_rows t)
      then t\<lparr>children := setRowMarkup_children n f (children t)\<rparr> # ts
      else t # setRowMarkup (n - length (table_rows t)) f ts)"

fun deleteRow_children :: "nat \<Rightarrow> tchild list \<Rightarrow> tchild list" where
  "deleteRow_children n [] = []"
| "deleteRow_children n (TRow r # cs) =
     (if n = 0 then cs else TRow r # deleteRow_children (n - 1) cs)"
| "deleteRow_children n (TGroup rs # cs) =
     (if n < length rs then TGroup (take n rs @ drop (Suc n) rs) # cs
      else TGroup rs # deleteRow_children (n - length rs) cs)"

fun deleteRow :: "nat \<Rightarrow> doc \<Rightarrow> doc" where
  "deleteRow n [] = []"
| "deleteRow n (t # ts) =
     (if n < length (table_rows t)
      then t\<lparr>children := deleteRow_children n (children t)\<rparr> # ts
      else t # deleteRow (n - length (table_rows t)) ts)"





text \<open>\<open>findRowPosById\<close>: the first row in document order whose \<open>rmRowId\<close> is the given id.\<close>

fun find_index_from :: "nat \<Rightarrow> ('a \<Rightarrow> bool) \<Rightarrow> 'a list \<Rightarrow> nat option" where
  "find_index_from n P [] = None"
| "find_index_from n P (x # xs) = (if P x then Some n else find_index_from (Suc n) P xs)"


section \<open>Chain cleanup reconciler\<close>

record transaction =
  tr_doc :: doc
  tr_steps :: nat
  tr_rmRowCleanup :: bool
  tr_overflowMeta :: bool

definition docChanged :: "transaction \<Rightarrow> bool" where
  "docChanged t = (tr_steps t > 0)"

definition state_tr :: "doc \<Rightarrow> transaction" where
  "state_tr d = \<lparr>tr_doc = d, tr_steps = 0, tr_rmRowCleanup = False, tr_overflowMeta = False\<rparr>"

text \<open>
  \<open>collectRowsById\<close> builds a JavaScript \<open>Map\<close>: \<open>map.set\<close> replaces the value of a key in
  place and appends a new key, which is \<open>AList.update\<close>; a later row with the same id wins.
\<close>

definition collectRowsById :: "doc \<Rightarrow> (string \<times> (row \<times> nat)) list" where
  "collectRowsById d =
     foldl (\<lambda>m (pos, r). case asStringOrNull (rmRowId r) of
                             None \<Rightarrow> m
                           | Some i \<Rightarrow> AList.update i (r, pos) m)
       [] (enumerate 0 (doc_rows d))"

definition set_add :: "'a \<Rightarrow> 'a list \<Rightarrow> 'a list" where
  "set_add x xs = (if x \<in> set xs then xs else xs @ [x])"

text \<open>
  The \<open>while (nextId)\<close> loop of \<open>cleanupDeletedRowChains\<close>: it walks \<open>rmLinkedNext\<close> as
  recorded before the edit, stops at an id already marked and at an id unknown before
  the edit (after marking it).
\<close>

function walk_chain :: "(string \<times> (row \<times> nat)) list \<Rightarrow> string list \<Rightarrow> string option \<Rightarrow> string list" where
  "walk_chain oldRows removeIds nextId =
     (case nextId of
        None \<Rightarrow> removeIds
      | Some n \<Rightarrow>
          if n \<in> set removeIds then removeIds
          else (case map_of oldRows n of
                  None \<Rightarrow> removeIds @ [n]
                | Some nextOld \<Rightarrow>
                    walk_chain oldRows (removeIds @ [n]) (asStringOrNull (rmLinkedNext (fst nextOld)))))"
  by pat_completeness auto
termination
proof (relation "measure (\<lambda>(oldRows, removeIds, nextId). card (fst ` set oldRows - set removeIds))")
  show "wf (measure (\<lambda>(oldRows, removeIds, nextId). card (fst ` set oldRows - set removeIds)))"
    by simp
next
  fix oldRows :: "(string \<times> (row \<times> nat)) list" and removeIds :: "string list"
    and nextId :: "string option" and n :: string and nextOld :: "row \<times> nat"
  assume a: "nextId = Some n" "n \<notin> set removeIds" "map_of oldRows n = Some nextOld"
  have "n \<in> fst ` set oldRows"
    using a(3) by (metis map_of_eq_None_iff option.distinct(1))
  then have "fst ` set oldRows - set (removeIds @ [n]) \<subset> fst ` set oldRows - set removeIds"
    using a(2) by auto
  then have "card (fst ` set oldRows - set (removeIds @ [n])) < card (fst ` set oldRows - set removeIds)"
    by (simp add: psubset_card_mono)
  then show "((oldRows, removeIds @ [n], asStringOrNull (rmLinkedNext (fst nextOld))),
              (oldRows, removeIds, nextId))
             \<in> measure (\<lambda>(oldRows, removeIds, nextId). card (fst ` set oldRows - set removeIds))"
    by simp
qed

definition mark_deleted ::
  "(string \<times> (row \<times> nat)) list \<Rightarrow> (string \<times> (row \<times> nat)) list \<Rightarrow>
   string list \<times> string list \<Rightarrow> string \<Rightarrow> string list \<times> string list" where
  "mark_deleted oldRows newRows acc deletedId =
     (case map_of oldRows deletedId of
        None \<Rightarrow> acc
      | Some oldRow \<Rightarrow>
          (let prevId = asStringOrNull (rmLinkedPrev (fst oldRow));
               clearPrevIds =
                 (case prevId of
                    None \<Rightarrow> snd acc
                  | Some p \<Rightarrow> if map_of newRows p \<noteq> None then set_add p (snd acc) else snd acc);
               removeIds = walk_chain oldRows (fst acc) (asStringOrNull (rmLinkedNext (fst oldRow)))
           in (removeIds, clearPrevIds)))"

record rowInfo =
  ri_id :: string
  ri_pos :: nat
  ri_tablePos :: nat
  ri_groupPos :: "(nat \<times> nat) option"

record rowStructure =
  rowsById :: "(string \<times> rowInfo) list"
  rowsToDelete :: "rowInfo list"
  tablesToDelete :: "nat list"
  groupsToDelete :: "(nat \<times> nat) list"
  groupToTablePos :: "((nat \<times> nat) \<times> nat) list"

definition rowCountsAsKeep :: "string list \<Rightarrow> row \<Rightarrow> bool" where
  "rowCountsAsKeep removeIds r =
     (case asStringOrNull (rmRowId r) of None \<Rightarrow> True | Some i \<Rightarrow> i \<notin> set removeIds)"

definition doc_groups :: "doc \<Rightarrow> (nat \<times> nat) list" where
  "doc_groups d =
     concat (map (\<lambda>(ti, t). List.map_filter
                    (\<lambda>(ci, c). case c of TGroup rs \<Rightarrow> Some (ti, ci) | TRow r \<Rightarrow> None)
                    (enumerate 0 (children t)))
               (enumerate 0 d))"

definition collectRowStructure :: "doc \<Rightarrow> string list \<Rightarrow> rowStructure" where
  "collectRowStructure d removeIds =
     (let entries = enumerate 0 (doc_ctx d);
          infos = List.map_filter
                    (\<lambda>(pos, (r, ti, g)).
                       map_option (\<lambda>i. \<lparr>ri_id = i, ri_pos = pos, ri_tablePos = ti, ri_groupPos = g\<rparr>)
                         (asStringOrNull (rmRowId r)))
                    entries;
          keep = filter (\<lambda>(pos, (r, ti, g)). rowCountsAsKeep removeIds r) entries;
          tableKeepCounts = (\<lambda>tp. length (filter (\<lambda>(pos, (r, ti, g)). ti = tp) keep));
          groupKeepCounts = (\<lambda>gp. length (filter (\<lambda>(pos, (r, ti, g)). g = Some gp) keep))
      in \<lparr>rowsById = foldl (\<lambda>m info. AList.update (ri_id info) info m) [] infos,
          rowsToDelete = filter (\<lambda>info. ri_id info \<in> set removeIds) infos,
          tablesToDelete = filter (\<lambda>tp. tableKeepCounts tp = 0) [0..<length d],
          groupsToDelete = filter (\<lambda>gp. groupKeepCounts gp = 0) (doc_groups d),
          groupToTablePos =
            List.map_filter (\<lambda>(pos, (r, ti, g)). map_option (\<lambda>gp. (gp, ti)) g) entries\<rparr>)"

text \<open>
  The deletions are disjoint nodes (a row inside a deleted group or table is skipped) and
  the source applies them from the bottom of the document up, so every recorded position
  is still valid when it is used. The model removes them in one pass over the document.
\<close>

fun prune_rows :: "(nat \<Rightarrow> bool) \<Rightarrow> nat \<Rightarrow> row list \<Rightarrow> row list" where
  "prune_rows delr n [] = []"
| "prune_rows delr n (r # rs) = (if delr n then [] else [r]) @ prune_rows delr (Suc n) rs"

fun prune_children ::
  "(nat \<Rightarrow> bool) \<Rightarrow> (nat \<Rightarrow> bool) \<Rightarrow> nat \<Rightarrow> nat \<Rightarrow> tchild list \<Rightarrow> tchild list" where
  "prune_children delr delg n ci [] = []"
| "prune_children delr delg n ci (TRow r # cs) =
     (if delr n then [] else [TRow r]) @ prune_children delr delg (Suc n) (Suc ci) cs"
| "prune_children delr delg n ci (TGroup rs # cs) =
     (if delg ci then [] else [TGroup (prune_rows delr n rs)])
     @ prune_children delr delg (n + length rs) (Suc ci) cs"

fun prune_doc ::
  "(nat \<Rightarrow> bool) \<Rightarrow> (nat \<times> nat \<Rightarrow> bool) \<Rightarrow> (nat \<Rightarrow> bool) \<Rightarrow> nat \<Rightarrow> nat \<Rightarrow> doc \<Rightarrow> doc" where
  "prune_doc delr delg delt n ti [] = []"
| "prune_doc delr delg delt n ti (t # ts) =
     (if delt ti then []
      else [t\<lparr>children := prune_children delr (\<lambda>ci. delg (ti, ci)) n 0 (children t)\<rparr>])
     @ prune_doc delr delg delt (n + length (table_rows t)) (Suc ti) ts"

definition clearLinkedNext :: "row \<Rightarrow> row" where
  "clearLinkedNext r = r\<lparr>rmLinkedNext := None\<rparr>"

definition row_survives :: "rowStructure \<Rightarrow> rowInfo \<Rightarrow> bool" where
  "row_survives st info =
     (\<not> (ri_tablePos info \<in> set (tablesToDelete st)) \<and>
      \<not> (case ri_groupPos info of None \<Rightarrow> False | Some gp \<Rightarrow> gp \<in> set (groupsToDelete st)))"

text \<open>
  \<open>cleanupDeletedRowChains\<close>, in the order of the source: the ids deleted by the edit, the
  marks (rows to remove, rows whose \<open>rmLinkedNext\<close> is cleared), and the transaction that
  clears the pointers and deletes tables, groups and rows. The transaction is created by
  \<open>newState.tr\<close> followed by \<open>tr.setMeta(RM_ROW_CLEANUP_META, true)\<close>.
\<close>

definition deletedRowIds ::
  "(string \<times> (row \<times> nat)) list \<Rightarrow> (string \<times> (row \<times> nat)) list \<Rightarrow> string list" where
  "deletedRowIds oldRows newRows = filter (\<lambda>i. map_of newRows i = None) (map fst oldRows)"

definition chainMarks ::
  "(string \<times> (row \<times> nat)) list \<Rightarrow> (string \<times> (row \<times> nat)) list \<Rightarrow> string list
   \<Rightarrow> string list \<times> string list" where
  "chainMarks oldRows newRows deletedIds = foldl (mark_deleted oldRows newRows) ([], []) deletedIds"

definition cleanupClears :: "rowStructure \<Rightarrow> string list \<Rightarrow> rowInfo list" where
  "cleanupClears st clearPrevIds =
     filter (row_survives st) (List.map_filter (\<lambda>p. map_of (rowsById st) p) clearPrevIds)"

definition groupDeletions :: "rowStructure \<Rightarrow> (nat \<times> nat) list" where
  "groupDeletions st =
     filter (\<lambda>gp. \<not> (case map_of (groupToTablePos st) gp of
                          None \<Rightarrow> False
                        | Some tp \<Rightarrow> tp \<in> set (tablesToDelete st)))
       (groupsToDelete st)"

definition rowDeletions :: "rowStructure \<Rightarrow> rowInfo list" where
  "rowDeletions st = filter (row_survives st) (rowsToDelete st)"

definition cleanupDoc :: "rowStructure \<Rightarrow> rowInfo list \<Rightarrow> doc \<Rightarrow> doc" where
  "cleanupDoc st clears newDoc =
     prune_doc (\<lambda>n. n \<in> ri_pos ` set (rowDeletions st))
       (\<lambda>gp. gp \<in> set (groupsToDelete st))
       (\<lambda>tp. tp \<in> set (tablesToDelete st)) 0 0
       (foldl (\<lambda>d info. setRowMarkup (ri_pos info) clearLinkedNext d) newDoc clears)"

definition cleanupTr :: "doc \<Rightarrow> nat \<Rightarrow> transaction" where
  "cleanupTr d steps =
     \<lparr>tr_doc = d, tr_steps = steps, tr_rmRowCleanup = True, tr_overflowMeta = False\<rparr>"

definition cleanupTransaction :: "doc \<Rightarrow> string list \<Rightarrow> string list \<Rightarrow> transaction option" where
  "cleanupTransaction newDoc removeIds clearPrevIds =
     (let st = collectRowStructure newDoc removeIds;
          clears = cleanupClears st clearPrevIds;
          ndeletions = length (tablesToDelete st) + length (groupDeletions st)
                       + length (rowDeletions st);
          steps = length clears + ndeletions
      in
      if ndeletions = 0 \<and> length clears = 0 then None
      else if steps > 0 then Some (cleanupTr (cleanupDoc st clears newDoc) steps)
      else None)"

definition cleanupDeletedRowChains :: "doc \<Rightarrow> doc \<Rightarrow> transaction option" where
  "cleanupDeletedRowChains oldDoc newDoc =
     (let oldRows = collectRowsById oldDoc in
      if length oldRows = 0 then None
      else
        let newRows = collectRowsById newDoc;
            deletedIds = deletedRowIds oldRows newRows
        in
        if length deletedIds = 0 then None
        else
          let marks = chainMarks oldRows newRows deletedIds;
              removeIds = fst marks;
              clearPrevIds = snd marks
          in
          if length removeIds = 0 \<and> length clearPrevIds = 0 then None
          else cleanupTransaction newDoc removeIds clearPrevIds)"

record applied =
  meta_rmRowCleanup :: bool
  meta_docChanged :: bool

definition appendTransaction :: "applied list \<Rightarrow> doc \<Rightarrow> doc \<Rightarrow> transaction option" where
  "appendTransaction transactions oldState newState =
     (if list_ex meta_rmRowCleanup transactions then None
      else if \<not> list_ex meta_docChanged transactions then None
      else cleanupDeletedRowChains oldState newState)"

section \<open>Merge engine\<close>

subsection \<open>Cell predicates\<close>

text \<open>
  \<open>isVisuallyEmptyCell\<close>: the callback of \<open>cell.descendants\<close> descends everywhere and
  raises the flag at a leaf whose type is neither \<open>hardBreak\<close> nor \<open>paragraph\<close>. A text
  node is a leaf of type \<open>text\<close>.
\<close>

definition nonTrivialLeaf :: "string \<Rightarrow> bool" where
  "nonTrivialLeaf n = (\<not> (n = ''hardBreak'' \<or> n = ''paragraph'') \<and> n \<noteq> ''hardBreak'')"

fun hasNonTrivial :: "block \<Rightarrow> bool" where
  "hasNonTrivial (Textblock t a is) = list_ex (\<lambda>i. nonTrivialLeaf (inline_name i)) is"
| "hasNonTrivial (Container n bs) = list_ex hasNonTrivial bs"
| "hasNonTrivial (LeafBlock n) = nonTrivialLeaf n"

definition isVisuallyEmptyCell :: "cell \<Rightarrow> bool" where
  "isVisuallyEmptyCell c =
     (if trim (cell_textContent (content c)) \<noteq> [] then False
      else \<not> list_ex hasNonTrivial (content c))"

definition meaningfulBlocksFromCell :: "cell \<Rightarrow> block list" where
  "meaningfulBlocksFromCell c =
     filter (\<lambda>b. \<not> (block_name b = ''paragraph'' \<and> trim (textContent b) = [] \<and> content_size b = 0))
       (content c)"

definition emptyParagraph :: block where
  "emptyParagraph = Textblock ''paragraph'' [] []"

datatype error = SchemaError | TypeError | RangeError

text \<open>\<open>emptyCellContent\<close> throws when the schema has no paragraph node.\<close>

definition emptyCellContent :: "bool \<Rightarrow> error + block list" where
  "emptyCellContent hasParagraph = (if hasParagraph then Inr [emptyParagraph] else Inl SchemaError)"

definition isMergedOrigin :: "cell \<Rightarrow> bool" where
  "isMergedOrigin n = (rmMergeOrigin n \<and> (rmRowspan n > 1 \<or> rmColspan n > 1))"

subsection \<open>Grid map and selection\<close>

text \<open>
  \<open>TableMap\<close> (prosemirror-tables) for a table whose cells all have real spans 1: the
  grid entry (r, c) is cell \<open>c\<close> of row \<open>r\<close>, the width is the longest row, and an entry
  of a shorter row is missing (the source then reads a node that is not a cell). The
  rows of the map are the rows of the table in document order, whether they are children
  of the table or of a row group. A table with a cell of real span above 1 is outside
  the model: there the map repeats a cell.
  A cell selection names its table and the (row, column) of its anchor and head cells;
  \<open>findCell\<close> throws a \<open>RangeError\<close> for a position that is no cell of the table.
  \<open>es_cursor\<close> is the table and cell that enclose \<open>selection.$from\<close> when the selection
  is not a cell selection, and \<open>es_hasParagraph\<close> says whether \<open>schema.nodes.paragraph\<close>
  exists.
\<close>

record cellSelection =
  sel_table :: nat
  anchorCell :: "nat \<times> nat"
  headCell :: "nat \<times> nat"

record editorState =
  es_doc :: doc
  es_selection :: "cellSelection option"
  es_cursor :: "(nat \<times> (nat \<times> nat)) option"
  es_hasParagraph :: bool

definition table_grid :: "table \<Rightarrow> cell list list" where
  "table_grid t = map cells (table_rows t)"

definition map_width :: "cell list list \<Rightarrow> nat" where
  "map_width g = foldr max (map length g) 0"

definition map_cell :: "cell list list \<Rightarrow> nat \<Rightarrow> nat \<Rightarrow> cell option" where
  "map_cell g r c = (if r < length g \<and> c < length (g ! r) then Some (g ! r ! c) else None)"

definition sel_ok :: "doc \<Rightarrow> cellSelection \<Rightarrow> bool" where
  "sel_ok d sel =
     (sel_table sel < length d \<and>
      map_cell (table_grid (d ! sel_table sel)) (fst (anchorCell sel)) (snd (anchorCell sel)) \<noteq> None \<and>
      map_cell (table_grid (d ! sel_table sel)) (fst (headCell sel)) (snd (headCell sel)) \<noteq> None)"

record rect =
  r_left :: nat
  r_top :: nat
  r_right :: nat
  r_bottom :: nat

definition rectBetween :: "nat \<times> nat \<Rightarrow> nat \<times> nat \<Rightarrow> rect" where
  "rectBetween a b =
     \<lparr>r_left = min (snd a) (snd b), r_top = min (fst a) (fst b),
      r_right = max (snd a) (snd b) + 1, r_bottom = max (fst a) (fst b) + 1\<rparr>"

definition rect_positions :: "rect \<Rightarrow> (nat \<times> nat) list" where
  "rect_positions rc = List.product [r_top rc..<r_bottom rc] [r_left rc..<r_right rc]"

text \<open>\<open>replaceWith(abs, abs + nodeSize, newNode)\<close> on the cell (r, c) of table \<open>ti\<close>.\<close>

definition replaceCell :: "nat \<Rightarrow> nat \<times> nat \<Rightarrow> cell \<Rightarrow> doc \<Rightarrow> doc" where
  "replaceCell ti rc new d =
     (if ti < length d
      then d[ti := (d ! ti)\<lparr>children :=
                   setRowMarkup_children (fst rc) (\<lambda>r. r\<lparr>cells := (cells r)[snd rc := new]\<rparr>)
                     (children (d ! ti))\<rparr>]
      else d)"

subsection \<open>mergeInternal\<close>

definition collectCells :: "cell list list \<Rightarrow> rect \<Rightarrow> ((nat \<times> nat) \<times> cell) list option" where
  "collectCells g rc =
     those (map (\<lambda>p. map_option (\<lambda>n. (p, n)) (map_cell g (fst p) (snd p))) (rect_positions rc))"

definition coveredCell :: "string \<Rightarrow> nat \<Rightarrow> block list \<Rightarrow> (nat \<times> nat) \<times> cell \<Rightarrow> cell" where
  "coveredCell originId topR emptyC x =
     (snd x)\<lparr>rmMergeOrigin := False, rmMergedTo := Some originId,
             rmHideMode := Some (if fst (fst x) = topR then HideNone else HideHidden),
             rmColspan := 1, rmRowspan := 1, content := emptyC\<rparr>"

definition mergedBlocksOf :: "(nat \<times> nat) \<Rightarrow> cell \<Rightarrow> ((nat \<times> nat) \<times> cell) list \<Rightarrow> block list" where
  "mergedBlocksOf opos origin cs =
     (if \<not> isVisuallyEmptyCell origin then meaningfulBlocksFromCell origin else [])
     @ concat (map (\<lambda>x. if fst x = opos then []
                         else if isVisuallyEmptyCell (snd x) then []
                         else meaningfulBlocksFromCell (snd x)) cs)"

definition mergeInternal :: "editorState \<Rightarrow> bool \<Rightarrow> error + (bool \<times> doc)" where
  "mergeInternal st dispatch =
     (case es_selection st of
        None \<Rightarrow> Inr (False, es_doc st)
      | Some sel \<Rightarrow>
          if \<not> sel_ok (es_doc st) sel then Inl RangeError
          else
            let d = es_doc st;
                ti = sel_table sel;
                g = table_grid (d ! ti);
                rc = rectBetween (anchorCell sel) (headCell sel);
                width = r_right rc - r_left rc;
                height = r_bottom rc - r_top rc
            in
            if width = 1 \<and> height = 1 then Inr (False, d)
            else
              (case collectCells g rc of
                 None \<Rightarrow> Inr (False, d)
               | Some cs \<Rightarrow>
                   if list_ex (\<lambda>x. truthy (rmMergedTo (snd x)) \<or> isMergedOrigin (snd x)) cs
                   then Inr (False, d)
                   else
                     (case List.find (\<lambda>x. fst x = (r_top rc, r_left rc)) cs of
                        None \<Rightarrow> Inl TypeError
                      | Some origin \<Rightarrow>
                          (case rmCellId (snd origin) of
                             None \<Rightarrow> Inr (False, d)
                           | Some originId \<Rightarrow>
                               if originId = [] then Inr (False, d)
                               else
                                 let mergedBlocks = mergedBlocksOf (fst origin) (snd origin) cs in
                                 if mergedBlocks = [] \<and> \<not> es_hasParagraph st then Inl TypeError
                                 else
                                   let mergedBlocks' =
                                         (if mergedBlocks = [] then [emptyParagraph] else mergedBlocks);
                                       mergedOrigin =
                                         (snd origin)\<lparr>rmMergeOrigin := True, rmMergedTo := None,
                                           rmHideMode := None, rmColspan := int width,
                                           rmRowspan := int height, content := mergedBlocks'\<rparr>
                                   in
                                   (case emptyCellContent (es_hasParagraph st) of
                                      Inl e \<Rightarrow> Inl e
                                    | Inr emptyC \<Rightarrow>
                                        let updates =
                                              map (\<lambda>x. (fst x, coveredCell originId (r_top rc) emptyC x))
                                                (filter (\<lambda>x. fst x \<noteq> fst origin) cs);
                                            d1 = foldl (\<lambda>dd u. replaceCell ti (fst u) (snd u) dd) d (rev updates);
                                            d2 = replaceCell ti (fst origin) mergedOrigin d1
                                        in Inr (True, if dispatch then d2 else d))))))"

subsection \<open>unmergeInternal\<close>

definition mergeIdOf :: "cell \<Rightarrow> string option" where
  "mergeIdOf n =
     (if truthy (rmMergedTo n) then rmMergedTo n
      else if isMergedOrigin n then rmCellId n
      else None)"

text \<open>
  The origin is the first cell of the table, in document order, that carries the id and
  is flagged as origin or has a span greater than 1.
\<close>

definition grid_positions :: "cell list list \<Rightarrow> ((nat \<times> nat) \<times> cell) list" where
  "grid_positions g =
     concat (map (\<lambda>(r, cs). map (\<lambda>(c, n). ((r, c), n)) (enumerate 0 cs)) (enumerate 0 g))"

definition findOrigin :: "cell list list \<Rightarrow> string \<Rightarrow> ((nat \<times> nat) \<times> cell) option" where
  "findOrigin g originId =
     List.find (\<lambda>x. rmCellId (snd x) = Some originId \<and>
                     (rmMergeOrigin (snd x) \<or> (rmRowspan (snd x) > 1 \<or> rmColspan (snd x) > 1)))
       (grid_positions g)"

definition normalCell :: "cell \<Rightarrow> block list \<Rightarrow> cell" where
  "normalCell n bs =
     n\<lparr>rmMergeOrigin := False, rmMergedTo := None, rmHideMode := None,
       rmColspan := 1, rmRowspan := 1, content := bs\<rparr>"

definition unmergeUpdates ::
  "cell list list \<Rightarrow> (nat \<times> nat) \<Rightarrow> string \<Rightarrow> block list \<Rightarrow> rect \<Rightarrow> ((nat \<times> nat) \<times> cell) list" where
  "unmergeUpdates g opos originId emptyC rc =
     List.map_filter
       (\<lambda>p. case map_cell g (fst p) (snd p) of
               None \<Rightarrow> None
             | Some n \<Rightarrow>
                 if p = opos then Some (p, normalCell n (content n))
                 else if rmMergedTo n = Some originId then Some (p, normalCell n emptyC)
                 else None)
       (rect_positions rc)"

definition unmergeInternal :: "editorState \<Rightarrow> bool \<Rightarrow> error + (bool \<times> doc)" where
  "unmergeInternal st dispatch =
     (case es_selection st of
        None \<Rightarrow> Inr (False, es_doc st)
      | Some sel \<Rightarrow>
          let d = es_doc st;
              ti = sel_table sel
          in
          if \<not> ti < length d then Inr (False, d)
          else
            let g = table_grid (d ! ti) in
            (case map_cell g (fst (anchorCell sel)) (snd (anchorCell sel)) of
               None \<Rightarrow> Inr (False, d)
             | Some anchorNode \<Rightarrow>
                 let originId0 = mergeIdOf anchorNode;
                     originId1 =
                       (if \<not> truthy originId0
                        then (case map_cell g (fst (headCell sel)) (snd (headCell sel)) of
                                None \<Rightarrow> originId0
                              | Some headNode \<Rightarrow> mergeIdOf headNode)
                        else originId0)
                 in
                 if \<not> truthy originId1 then Inr (False, d)
                 else
                   let originId = the originId1 in
                   (case findOrigin g originId of
                      None \<Rightarrow> Inr (False, d)
                    | Some origin \<Rightarrow>
                        let spanW = rmColspan (snd origin);
                            spanH = rmRowspan (snd origin)
                        in
                        if spanW \<le> 1 \<and> spanH \<le> 1 then Inr (False, d)
                        else
                          let topR = fst (fst origin);
                              leftC = snd (fst origin);
                              bottomR = nat (min (int topR + spanH) (int (length g)));
                              rightC = nat (min (int leftC + spanW) (int (map_width g)))
                          in
                          (case emptyCellContent (es_hasParagraph st) of
                             Inl e \<Rightarrow> Inl e
                           | Inr emptyC \<Rightarrow>
                               let updates = unmergeUpdates g (fst origin) originId emptyC
                                               \<lparr>r_left = leftC, r_top = topR, r_right = rightC,
                                                r_bottom = bottomR\<rparr>
                               in
                               if length updates = 0 then Inr (False, d)
                               else
                                 let d1 = foldl (\<lambda>dd u. replaceCell ti (fst u) (snd u) dd) d (rev updates)
                                 in Inr (True, if dispatch then d1 else d)))))"


subsection \<open>deleteRowPlus and insertRowAfterPlus\<close>


















section \<open>Overflow pagination engine\<close>

subsection \<open>Geometry provider\<close>







subsection \<open>Split point\<close>

datatype split = BlockSplit int | InlineSplit int







subsection \<open>Row and cell helpers\<close>













subsection \<open>The paginate step\<close>





section \<open>Merge-back engine\<close>










section \<open>Host loop around the reconciler\<close>

text \<open>
  The host offers every applied transaction to \<open>appendTransaction\<close>; when the plugin
  answers with a transaction, the host applies it and asks again, passing the
  transactions applied since the plugin's previous call. \<open>followups n\<close> collects the
  answers of at most \<open>n\<close> rounds.
\<close>

definition applied_of :: "transaction \<Rightarrow> applied" where
  "applied_of t = \<lparr>meta_rmRowCleanup = tr_rmRowCleanup t, meta_docChanged = docChanged t\<rparr>"

fun followups :: "nat \<Rightarrow> applied list \<Rightarrow> doc \<Rightarrow> doc \<Rightarrow> transaction list" where
  "followups 0 trs oldState newState = []"
| "followups (Suc n) trs oldState newState =
     (case appendTransaction trs oldState newState of
        None \<Rightarrow> []
      | Some t \<Rightarrow> t # followups n [applied_of t] newState (tr_doc t))"

section \<open>Vocabulary of the claims\<close>

definition isCoveredCell :: "cell \<Rightarrow> bool" where
  "isCoveredCell n = truthy (rmMergedTo n)"

definition cellAt :: "doc \<Rightarrow> nat \<Rightarrow> nat \<times> nat \<Rightarrow> cell option" where
  "cellAt d ti p = (if ti < length d then map_cell (table_grid (d ! ti)) (fst p) (snd p) else None)"

section \<open>Example documents\<close>

definition textCell :: "string option \<Rightarrow> string \<Rightarrow> cell" where
  "textCell i s =
     \<lparr>cellType = TableCell, rmCellId = i, rmMergeOrigin = False, rmMergedTo = None,
      rmHideMode = None, rmColspan = 1, rmRowspan = 1,
      content = [Textblock ''paragraph'' [] (map Chr s)]\<rparr>"

definition chainRow :: "string \<Rightarrow> string option \<Rightarrow> string option \<Rightarrow> row" where
  "chainRow i p n =
     \<lparr>rmRowId = Some i, rmLinkedPrev = p, rmLinkedNext = n, cells = [textCell None ''x'']\<rparr>"

definition chainABC :: doc where
  "chainABC =
     [\<lparr>locked = False,
       children = [TRow (chainRow ''A'' None (Some ''B'')),
                   TRow (chainRow ''B'' (Some ''A'') (Some ''C'')),
                   TRow (chainRow ''C'' (Some ''B'') None)]\<rparr>]"

definition plainRow :: "cell list \<Rightarrow> row" where
  "plainRow cs = \<lparr>rmRowId = None, rmLinkedPrev = None, rmLinkedNext = None, cells = cs\<rparr>"

definition grid22 :: "bool \<Rightarrow> doc" where
  "grid22 lk =
     [\<lparr>locked = lk,
       children = [TRow (plainRow [textCell (Some ''a'') ''one'', textCell (Some ''b'') ''two'']),
                   TRow (plainRow [textCell (Some ''c'') '''', textCell (Some ''d'') ''four''])]\<rparr>]"

definition selection22 :: "nat \<times> nat \<Rightarrow> nat \<times> nat \<Rightarrow> cellSelection" where
  "selection22 a h = \<lparr>sel_table = 0, anchorCell = a, headCell = h\<rparr>"

definition editor22 :: "bool \<Rightarrow> bool \<Rightarrow> nat \<times> nat \<Rightarrow> nat \<times> nat \<Rightarrow> editorState" where
  "editor22 lk para a h =
     \<lparr>es_doc = grid22 lk, es_selection = Some (selection22 a h), es_cursor = None, es_hasParagraph = para\<rparr>"






subsection \<open>Merge vocabulary\<close>

definition grid_set :: "cell list list \<Rightarrow> nat \<times> nat \<Rightarrow> cell \<Rightarrow> cell list list" where
  "grid_set g p new = (if fst p < length g then g[fst p := (g ! fst p)[snd p := new]] else g)"

text \<open>
  The cells of a rectangle in row-major order, and the content \<open>mergeInternal\<close> composes
  from them with its own two helpers.
\<close>

definition rectCells :: "doc \<Rightarrow> nat \<Rightarrow> rect \<Rightarrow> cell list" where
  "rectCells d ti rc = List.map_filter (cellAt d ti) (rect_positions rc)"

definition mergedContentOf :: "cell list \<Rightarrow> block list" where
  "mergedContentOf cs =
     (if list_all isVisuallyEmptyCell cs then [emptyParagraph]
      else concat (map meaningfulBlocksFromCell (filter (\<lambda>c. \<not> isVisuallyEmptyCell c) cs)))"

text \<open>
  The merged content in the words of the specification. A cell is visually empty when it
  has no non-whitespace text and no non-text content beyond line breaks; it then
  contributes nothing. The meaningful blocks of a cell are its blocks other than empty
  paragraphs. The origin receives the meaningful blocks of the cells that are not
  visually empty, in row-major order, or a single empty paragraph if every cell is
  visually empty.
\<close>

fun spec_emptyInline :: "inline \<Rightarrow> bool" where
  "spec_emptyInline (Chr c) = is_ws c"
| "spec_emptyInline HardBreak = True"
| "spec_emptyInline (InlineLeaf n) = False"

fun spec_emptyBlock :: "block \<Rightarrow> bool" where
  "spec_emptyBlock (Textblock t a ils) = list_all spec_emptyInline ils"
| "spec_emptyBlock (Container n bs) = list_all spec_emptyBlock bs"
| "spec_emptyBlock (LeafBlock n) = False"

definition spec_visuallyEmpty :: "cell \<Rightarrow> bool" where
  "spec_visuallyEmpty c = list_all spec_emptyBlock (content c)"

fun spec_meaningful :: "block \<Rightarrow> bool" where
  "spec_meaningful (Textblock t a ils) = (\<not> (t = ''paragraph'' \<and> ils = []))"
| "spec_meaningful (Container n bs) = True"
| "spec_meaningful (LeafBlock n) = True"

definition spec_mergedContent :: "cell list \<Rightarrow> block list" where
  "spec_mergedContent cs =
     (if list_all spec_visuallyEmpty cs then [emptyParagraph]
      else concat (map (\<lambda>c. filter spec_meaningful (content c))
                     (filter (\<lambda>c. \<not> spec_visuallyEmpty c) cs)))"

definition mergedOriginCell :: "cell \<Rightarrow> rect \<Rightarrow> block list \<Rightarrow> cell" where
  "mergedOriginCell origin rc bs =
     origin\<lparr>rmMergeOrigin := True, rmMergedTo := None, rmHideMode := None,
            rmColspan := int (r_right rc - r_left rc), rmRowspan := int (r_bottom rc - r_top rc),
            content := bs\<rparr>"

definition isNormalCell :: "cell \<Rightarrow> bool" where
  "isNormalCell n = (\<not> rmMergeOrigin n \<and> rmMergedTo n = None \<and> rmColspan n = 1 \<and> rmRowspan n = 1)"

definition cell_count :: "doc \<Rightarrow> nat" where
  "cell_count d = sum_list (map (\<lambda>r. length (cells r)) (doc_rows d))"

definition idUniqueAt :: "doc \<Rightarrow> nat \<Rightarrow> nat \<times> nat \<Rightarrow> bool" where
  "idUniqueAt d ti p =
     list_all (\<lambda>x. fst x = p \<or> Some (rmCellId (snd x)) \<noteq> map_option rmCellId (cellAt d ti p))
       (grid_positions (table_grid (d ! ti)))"

definition coveredBy :: "string \<Rightarrow> bool \<Rightarrow> cell \<Rightarrow> cell" where
  "coveredBy oid sameRow n =
     n\<lparr>rmMergeOrigin := False, rmMergedTo := Some oid,
       rmHideMode := Some (if sameRow then HideNone else HideHidden),
       rmColspan := 1, rmRowspan := 1, content := [emptyParagraph]\<rparr>"

text \<open>
  \<open>mergedInto bs d d' ti rc\<close>: in \<open>d'\<close> the top-left cell of the rectangle is the origin
  with the rectangle's spans and content \<open>bs\<close>, and every other cell of the rectangle is
  covered by it. The postcondition of the claim gives the origin the content the
  specification describes.
\<close>

definition mergedInto :: "block list \<Rightarrow> doc \<Rightarrow> doc \<Rightarrow> nat \<Rightarrow> rect \<Rightarrow> bool" where
  "mergedInto bs d d' ti rc =
     (case cellAt d ti (r_top rc, r_left rc) of
        None \<Rightarrow> False
      | Some origin \<Rightarrow>
          (case rmCellId origin of
             None \<Rightarrow> False
           | Some oid \<Rightarrow>
               \<not> (r_right rc - r_left rc = 1 \<and> r_bottom rc - r_top rc = 1) \<and>
               cellAt d' ti (r_top rc, r_left rc) =
                 Some (mergedOriginCell origin rc bs) \<and>
               list_all (\<lambda>p. p = (r_top rc, r_left rc) \<or>
                              (case cellAt d ti p of
                                 None \<Rightarrow> False
                               | Some n \<Rightarrow> cellAt d' ti p = Some (coveredBy oid (fst p = r_top rc) n)))
                 (rect_positions rc)))"

definition mergePostcondition :: "doc \<Rightarrow> doc \<Rightarrow> nat \<Rightarrow> rect \<Rightarrow> bool" where
  "mergePostcondition d d' ti rc = mergedInto (spec_mergedContent (rectCells d ti rc)) d d' ti rc"

text \<open>
  A table of heading cells, for an editor whose schema has headings and no paragraph
  node.
\<close>

definition headingCell :: "string option \<Rightarrow> string \<Rightarrow> cell" where
  "headingCell i s = (textCell i s)\<lparr>content := [Textblock ''heading'' [] (map Chr s)]\<rparr>"

definition headingGrid :: doc where
  "headingGrid =
     [\<lparr>locked = False,
       children = [TRow (plainRow [headingCell (Some ''a'') ''one'', headingCell (Some ''b'') ''two'']),
                   TRow (plainRow [headingCell (Some ''c'') ''three'', headingCell (Some ''d'') ''four''])]\<rparr>]"

definition headingEditor :: "nat \<times> nat \<Rightarrow> nat \<times> nat \<Rightarrow> editorState" where
  "headingEditor a h =
     \<lparr>es_doc = headingGrid, es_selection = Some (selection22 a h), es_cursor = None, es_hasParagraph = False\<rparr>"

definition blankGrid :: doc where
  "blankGrid =
     [\<lparr>locked = False,
       children = [TRow (plainRow [textCell (Some ''a'') [], textCell (Some ''b'') ''  ''])]\<rparr>]"

definition blankEditor :: editorState where
  "blankEditor =
     \<lparr>es_doc = blankGrid, es_selection = Some (selection22 (0, 0) (0, 1)), es_cursor = None, es_hasParagraph = True\<rparr>"

definition rectMerged :: "doc \<Rightarrow> nat \<Rightarrow> rect \<Rightarrow> bool" where
  "rectMerged d ti rc =
     list_ex (\<lambda>p. case cellAt d ti p of
                     None \<Rightarrow> False
                   | Some n \<Rightarrow> isCoveredCell n \<or> isMergedOrigin n) (rect_positions rc)"

definition allNormal :: "doc \<Rightarrow> nat \<Rightarrow> rect \<Rightarrow> bool" where
  "allNormal d ti rc =
     list_all (\<lambda>p. case cellAt d ti p of None \<Rightarrow> False | Some n \<Rightarrow> isNormalCell n)
       (rect_positions rc)"

definition spansReset :: "doc \<Rightarrow> nat \<Rightarrow> rect \<Rightarrow> bool" where
  "spansReset d ti rc =
     list_all (\<lambda>p. case cellAt d ti p of
                      None \<Rightarrow> False
                    | Some n \<Rightarrow> rmColspan n = 1 \<and> rmRowspan n = 1) (rect_positions rc)"

definition afterMerge :: "editorState \<Rightarrow> doc" where
  "afterMerge st = (case mergeInternal st True of Inr res \<Rightarrow> snd res | Inl e \<Rightarrow> es_doc st)"

subsection \<open>Rows with their context, and row keys\<close>

text \<open>
  \<open>row_key\<close> is the id under which the reconciler files a row:
  \<open>asStringOrNull(node.attrs.rmRowId)\<close>. The remaining definitions name pieces of
  \<open>collectRowStructure\<close> and of the deletion pass for the proofs.
\<close>

definition children_ctx :: "nat \<Rightarrow> nat \<Rightarrow> tchild list \<Rightarrow> (row \<times> nat \<times> (nat \<times> nat) option) list" where
  "children_ctx ti ci cs = concat (map (\<lambda>(ci, c). child_ctx ti ci c) (enumerate ci cs))"

definition doc_ctx_from :: "nat \<Rightarrow> doc \<Rightarrow> (row \<times> nat \<times> (nat \<times> nat) option) list" where
  "doc_ctx_from ti d = concat (map (\<lambda>(ti, t). table_ctx ti t) (enumerate ti d))"

definition ctx_del ::
  "(nat \<Rightarrow> bool) \<Rightarrow> (nat \<times> nat \<Rightarrow> bool) \<Rightarrow> (nat \<Rightarrow> bool) \<Rightarrow> nat \<times> row \<times> nat \<times> (nat \<times> nat) option \<Rightarrow> bool" where
  "ctx_del delr delg delt e =
     (delt (fst (snd (snd e))) \<or>
      (case snd (snd (snd e)) of None \<Rightarrow> False | Some gp \<Rightarrow> delg gp) \<or> delr (fst e))"

definition clearAt :: "nat set \<Rightarrow> nat \<times> row \<Rightarrow> row" where
  "clearAt P e = (if fst e \<in> P then clearLinkedNext (snd e) else snd e)"

definition row_key :: "row \<Rightarrow> string option" where
  "row_key r = asStringOrNull (rmRowId r)"

definition infoOf :: "nat \<times> row \<times> nat \<times> (nat \<times> nat) option \<Rightarrow> rowInfo option" where
  "infoOf e = map_option (\<lambda>i. \<lparr>ri_id = i, ri_pos = fst e, ri_tablePos = fst (snd (snd e)),
                                  ri_groupPos = snd (snd (snd e))\<rparr>) (row_key (fst (snd e)))"

definition clearIn :: "string list \<Rightarrow> row \<Rightarrow> row" where
  "clearIn Cs r = (if list_ex (\<lambda>k. row_key r = Some k) Cs then clearLinkedNext r else r)"

definition keyed :: "nat \<times> row \<Rightarrow> (string \<times> (row \<times> nat)) option" where
  "keyed e = map_option (\<lambda>i. (i, (snd e, fst e))) (row_key (snd e))"

subsection \<open>Vocabulary for the row commands\<close>







subsection \<open>Vocabulary for the paginate step\<close>


fun atoms :: "block \<Rightarrow> inline list" where
  "atoms (Textblock t a ils) = ils"
| "atoms (Container n bs) = concat (map atoms bs)"
| "atoms (LeafBlock n) = [InlineLeaf n]"

definition atomsOf :: "block list \<Rightarrow> inline list" where
  "atomsOf bs = concat (map atoms bs)"





subsection \<open>Vocabulary for merge-back\<close>






section \<open>Verification\<close>

subsection \<open>Cells collected from a rectangle\<close>

lemma those_map_fst:
  "those (map (\<lambda>p. map_option (\<lambda>n. (p, n)) (f p)) ps) = Some cs \<Longrightarrow> map fst cs = ps"
proof (induction ps arbitrary: cs)
  case Nil then show ?case by simp
next
  case (Cons p ps)
  then show ?case by (auto split: option.splits)
qed

lemma those_map_snd:
  "those (map (\<lambda>p. map_option (\<lambda>n. (p, n)) (f p)) ps) = Some cs \<Longrightarrow> x \<in> set cs
   \<Longrightarrow> f (fst x) = Some (snd x)"
proof (induction ps arbitrary: cs)
  case Nil then show ?case by simp
next
  case (Cons p ps)
  then show ?case by (fastforce split: option.splits)
qed

lemma collectCells_fst: "collectCells g rc = Some cs \<Longrightarrow> map fst cs = rect_positions rc"
  unfolding collectCells_def by (rule those_map_fst)

lemma collectCells_snd:
  assumes "collectCells g rc = Some cs" "x \<in> set cs"
  shows "map_cell g (fst (fst x)) (snd (fst x)) = Some (snd x)"
  using those_map_snd[of "\<lambda>p. map_cell g (fst p) (snd p)" "rect_positions rc" cs x] assms
  unfolding collectCells_def by simp

lemma origin_in_rect:
  "(r_top (rectBetween a b), r_left (rectBetween a b)) \<in> set (rect_positions (rectBetween a b))"
  by (auto simp: rect_positions_def rectBetween_def)

lemma find_origin:
  assumes "collectCells g (rectBetween a b) = Some cs"
  shows "\<exists>n. List.find (\<lambda>x. fst x = (r_top (rectBetween a b), r_left (rectBetween a b))) cs
              = Some ((r_top (rectBetween a b), r_left (rectBetween a b)), n)"
proof -
  let ?o = "(r_top (rectBetween a b), r_left (rectBetween a b))"
  have "?o \<in> fst ` set cs"
    using collectCells_fst[OF assms] origin_in_rect[of a b] by (metis set_map)
  then obtain x where x: "x \<in> set cs" "fst x = ?o" by auto
  have "List.find (\<lambda>x. fst x = ?o) cs \<noteq> None"
    unfolding find_None_iff using x by blast
  then obtain y where y: "List.find (\<lambda>x. fst x = ?o) cs = Some y" by auto
  then have "fst y = ?o"
    by (auto simp: find_Some_iff)
  with y show ?thesis by (cases y) auto
qed

subsection \<open>The commands return\<close>

lemma merge_returns:
  assumes "es_hasParagraph st"
    and "case es_selection st of None \<Rightarrow> True | Some sel \<Rightarrow> sel_ok (es_doc st) sel"
  shows "\<exists>b d. mergeInternal st dp = Inr (b, d) \<and> (\<not> b \<longrightarrow> d = es_doc st)"
proof (cases "es_selection st")
  case None then show ?thesis by (auto simp add: mergeInternal_def)
next
  case (Some sel)
  then have ok: "sel_ok (es_doc st) sel" using assms(2) by simp
  show ?thesis
  proof (cases "collectCells (table_grid (es_doc st ! sel_table sel))
                  (rectBetween (anchorCell sel) (headCell sel))")
    case None
    then show ?thesis using Some ok by (auto simp add: mergeInternal_def Let_def)
  next
    case (Some cs)
    from find_origin[OF Some] obtain n where
      "List.find (\<lambda>x. fst x = (r_top (rectBetween (anchorCell sel) (headCell sel)),
                                r_left (rectBetween (anchorCell sel) (headCell sel)))) cs
       = Some ((r_top (rectBetween (anchorCell sel) (headCell sel)),
                r_left (rectBetween (anchorCell sel) (headCell sel))), n)" by blast
    then show ?thesis using Some \<open>es_selection st = Some sel\<close> ok assms(1)
      by (auto simp add: mergeInternal_def Let_def emptyCellContent_def split: option.splits)
  qed
qed


lemma cleanupTransaction_meta: "cleanupTransaction new rs cs = Some t \<Longrightarrow> tr_rmRowCleanup t"
  unfolding cleanupTransaction_def Let_def
  by (auto simp: cleanupTr_def split: if_splits)

lemma cleanup_meta: "cleanupDeletedRowChains old new = Some t \<Longrightarrow> tr_rmRowCleanup t"
  unfolding cleanupDeletedRowChains_def Let_def
  by (auto simp: cleanupTransaction_meta split: if_splits)

lemma append_meta: "appendTransaction trs old new = Some t \<Longrightarrow> tr_rmRowCleanup t"
  by (auto simp: appendTransaction_def cleanup_meta split: if_splits)

lemma followups_own: "tr_rmRowCleanup t \<Longrightarrow> followups n [applied_of t] s1 s2 = []"
  by (cases n) (simp_all add: appendTransaction_def applied_of_def)

lemma followups_le1: "length (followups n trs old new) \<le> 1"
  by (cases n) (auto simp: followups_own append_meta split: option.splits)

subsection \<open>Claims about the reconciler's feedback guard, errors and the lock\<close>

text \<open>
  Claim C10. Every transaction produced by the chain-cleanup reconciler carries the
  \<open>rmRowCleanup\<close> meta flag, \<open>appendTransaction\<close> returns null whenever a triggering
  transaction carries that flag, and so the host's loop obtains at most one cleanup
  follow-up for an edit, however many rounds it runs.
\<close>

theorem cleanup_never_feeds_itself:
  "(cleanupDeletedRowChains oldDoc newDoc = Some t \<longrightarrow> tr_rmRowCleanup t) \<and>
   (list_ex meta_rmRowCleanup trs \<longrightarrow> appendTransaction trs s1 s2 = None) \<and>
   (appendTransaction trs oldDoc newDoc = Some t \<longrightarrow>
      appendTransaction (applied_of t # rest) s1 s2 = None) \<and>
   length (followups n trs oldDoc newDoc) \<le> 1"
proof (intro conjI impI)
  assume "cleanupDeletedRowChains oldDoc newDoc = Some t"
  then show "tr_rmRowCleanup t" by (rule cleanup_meta)
next
  assume "list_ex meta_rmRowCleanup trs"
  then show "appendTransaction trs s1 s2 = None" by (simp add: appendTransaction_def)
next
  assume "appendTransaction trs oldDoc newDoc = Some t"
  then have "tr_rmRowCleanup t" by (rule append_meta)
  then show "appendTransaction (applied_of t # rest) s1 s2 = None"
    by (simp add: appendTransaction_def applied_of_def)
next
  show "length (followups n trs oldDoc newDoc) \<le> 1" by (rule followups_le1)
qed

theorem cleanup_never_feeds_itself_witness:
  "cleanupDeletedRowChains chainABC (deleteRow 1 chainABC)
     = Some (cleanupTr [\<lparr>locked = False, children = [TRow (chainRow ''A'' None None)]\<rparr>] 2) \<and>
   tr_rmRowCleanup (cleanupTr [\<lparr>locked = False, children = [TRow (chainRow ''A'' None None)]\<rparr>] 2) \<and>
   list_ex meta_rmRowCleanup [\<lparr>meta_rmRowCleanup = True, meta_docChanged = True\<rparr>] \<and>
   appendTransaction [\<lparr>meta_rmRowCleanup = True, meta_docChanged = True\<rparr>] chainABC chainABC = None \<and>
   appendTransaction [\<lparr>meta_rmRowCleanup = False, meta_docChanged = True\<rparr>] chainABC
       (deleteRow 1 chainABC)
     = Some (cleanupTr [\<lparr>locked = False, children = [TRow (chainRow ''A'' None None)]\<rparr>] 2) \<and>
   appendTransaction
       [applied_of (cleanupTr [\<lparr>locked = False, children = [TRow (chainRow ''A'' None None)]\<rparr>] 2)]
       chainABC chainABC = None \<and>
   length (followups 3 [\<lparr>meta_rmRowCleanup = False, meta_docChanged = True\<rparr>] chainABC
             (deleteRow 1 chainABC)) \<le> 1"
proof -
  let ?t = "cleanupTr [\<lparr>locked = False, children = [TRow (chainRow ''A'' None None)]\<rparr>] 2"
  let ?edit = "[\<lparr>meta_rmRowCleanup = False, meta_docChanged = True\<rparr>]"
  let ?own = "[\<lparr>meta_rmRowCleanup = True, meta_docChanged = True\<rparr>]"
  have c: "cleanupDeletedRowChains chainABC (deleteRow 1 chainABC) = Some ?t"
    by code_simp
  have f: "list_ex meta_rmRowCleanup ?own" by simp
  have a: "appendTransaction ?edit chainABC (deleteRow 1 chainABC) = Some ?t"
    using c by (simp add: appendTransaction_def)
  note w1 = cleanup_never_feeds_itself[of chainABC "deleteRow 1 chainABC" ?t ?own chainABC chainABC "[]" 3]
  note w2 = cleanup_never_feeds_itself[of chainABC "deleteRow 1 chainABC" ?t ?edit chainABC chainABC "[]" 3]
  show ?thesis using c f a w1 w2 by blast
qed




subsection \<open>Rewriting cells of a table\<close>

lemma rows_setRowMarkup_children:
  "concat (map child_rows (setRowMarkup_children n f cs)) =
     (if n < length (concat (map child_rows cs))
      then (concat (map child_rows cs))[n := f (concat (map child_rows cs) ! n)]
      else concat (map child_rows cs))"
proof (induction n f cs rule: setRowMarkup_children.induct)
  case (1 n f) show ?case by simp
next
  case (2 n f r cs)
  show ?case
  proof (cases n)
    case 0 then show ?thesis by simp
  next
    case (Suc m) then show ?thesis using 2 by simp
  qed
next
  case (3 n f rs cs)
  show ?case
  proof (cases "n < length rs")
    case True then show ?thesis by (simp add: list_update_append1 nth_append)
  next
    case False
    then show ?thesis using 3 by (auto simp: list_update_append nth_append)
  qed
qed

lemma grid_replaceCell:
  "ti < length d \<Longrightarrow> table_grid (replaceCell ti p new d ! ti) = grid_set (table_grid (d ! ti)) p new"
  by (simp add: replaceCell_def table_grid_def table_rows_def rows_setRowMarkup_children
      grid_set_def map_update)

lemma length_replaceCell [simp]: "length (replaceCell ti p new d) = length d"
  by (simp add: replaceCell_def)

lemma map_cell_grid_set:
  "map_cell (grid_set g p new) r c =
     (if (r, c) = p \<and> map_cell g r c \<noteq> None then Some new else map_cell g r c)"
  by (cases p) (auto simp: grid_set_def map_cell_def nth_list_update)

lemma cellAt_replaceCell:
  "cellAt (replaceCell ti p new d) ti q =
     (if q = p \<and> cellAt d ti q \<noteq> None then Some new else cellAt d ti q)"
  by (cases q) (auto simp: cellAt_def grid_replaceCell map_cell_grid_set)

lemma cellAt_foldl_replace:
  "cellAt (foldl (\<lambda>dd u. replaceCell ti (fst u) (snd u) dd) d us) ti q =
     (if cellAt d ti q = None then None
      else (case map_of (rev us) q of None \<Rightarrow> cellAt d ti q | Some n \<Rightarrow> Some n))"
proof (induction us arbitrary: d)
  case Nil then show ?case by simp
next
  case (Cons u us)
  show ?case
    by (simp add: Cons.IH cellAt_replaceCell map_add_def split: option.splits)
qed

lemma nodeSize_pos: "0 < nodeSize b"
  by (cases b) auto

lemma hasNonTrivial_meaningful:
  "hasNonTrivial b \<Longrightarrow> 0 < content_size b \<or> block_name b \<noteq> ''paragraph''"
proof (cases b)
  case (Textblock t a ils)
  assume "hasNonTrivial b"
  then show ?thesis using Textblock by (cases ils) (auto simp: list_ex_iff)
next
  case (Container n bs)
  assume "hasNonTrivial b"
  then obtain x where "x \<in> set bs" using Container by (auto simp: list_ex_iff)
  then have "0 < sum_list (map nodeSize bs)"
    by (cases bs) (auto simp: nodeSize_pos)
  then show ?thesis using Container by simp
next
  case (LeafBlock n)
  assume "hasNonTrivial b"
  then show ?thesis using LeafBlock by (auto simp: nonTrivialLeaf_def)
qed

lemma text_content_size: "textContent b \<noteq> [] \<Longrightarrow> 0 < content_size b"
proof (cases b)
  case (Textblock t a ils)
  assume "textContent b \<noteq> []" then show ?thesis using Textblock by (cases ils) auto
next
  case (Container n bs)
  assume "textContent b \<noteq> []"
  then have "bs \<noteq> []" using Container by auto
  then have "0 < sum_list (map nodeSize bs)" by (cases bs) (auto simp: nodeSize_pos)
  then show ?thesis using Container by simp
next
  case (LeafBlock n)
  assume "textContent b \<noteq> []" then show ?thesis using LeafBlock by simp
qed

lemma trim_Nil [simp]: "trim [] = []"
  by (simp add: trim_def)

lemma nonempty_cell_meaningful:
  assumes "\<not> isVisuallyEmptyCell c"
  shows "meaningfulBlocksFromCell c \<noteq> []"
proof -
  have "\<exists>b\<in>set (content c). 0 < content_size b \<or> block_name b \<noteq> ''paragraph''"
  proof (cases "trim (cell_textContent (content c)) \<noteq> []")
    case True
    then have "cell_textContent (content c) \<noteq> []" by auto
    then obtain b where "b \<in> set (content c)" "textContent b \<noteq> []"
      by (auto simp: cell_textContent_def)
    then show ?thesis using text_content_size by blast
  next
    case False
    then have "list_ex hasNonTrivial (content c)"
      using assms by (simp add: isVisuallyEmptyCell_def)
    then show ?thesis using hasNonTrivial_meaningful by (auto simp: list_ex_iff)
  qed
  then show ?thesis
    by (auto simp: meaningfulBlocksFromCell_def filter_empty_conv)
qed

lemma mergedContentOf_alt:
  "mergedContentOf cs =
     (let bs = concat (map (\<lambda>c. if isVisuallyEmptyCell c then [] else meaningfulBlocksFromCell c) cs)
      in if bs = [] then [emptyParagraph] else bs)"
proof -
  have a: "concat (map (\<lambda>c. if isVisuallyEmptyCell c then [] else meaningfulBlocksFromCell c) cs)
         = concat (map meaningfulBlocksFromCell (filter (\<lambda>c. \<not> isVisuallyEmptyCell c) cs))"
    by (induction cs) auto
  have b: "(concat (map meaningfulBlocksFromCell (filter (\<lambda>c. \<not> isVisuallyEmptyCell c) cs)) = [])
           = list_all isVisuallyEmptyCell cs"
    using nonempty_cell_meaningful by (induction cs) auto
  show ?thesis unfolding mergedContentOf_def Let_def a b by simp
qed

lemma rect_positions_hd:
  "rect_positions (rectBetween a b) =
     (r_top (rectBetween a b), r_left (rectBetween a b)) # tl (rect_positions (rectBetween a b))"
proof -
  let ?rc = "rectBetween a b"
  have t: "[r_top ?rc..<r_bottom ?rc] = r_top ?rc # [Suc (r_top ?rc)..<r_bottom ?rc]"
    by (simp add: rectBetween_def upt_conv_Cons)
  have l: "[r_left ?rc..<r_right ?rc] = r_left ?rc # [Suc (r_left ?rc)..<r_right ?rc]"
    by (simp add: rectBetween_def upt_conv_Cons)
  show ?thesis unfolding rect_positions_def t l by simp
qed

lemma distinct_rect_positions: "distinct (rect_positions rc)"
  by (simp add: rect_positions_def distinct_product)

lemma mergedBlocksOf_spec:
  assumes cs: "map fst cs = opos # ps" and d: "distinct (opos # ps)" and o: "snd (hd cs) = origin"
  shows "mergedBlocksOf opos origin cs =
           concat (map (\<lambda>c. if isVisuallyEmptyCell c then [] else meaningfulBlocksFromCell c) (map snd cs))"
proof -
  from cs obtain x rest where c: "cs = x # rest" "fst x = opos" "map fst rest = ps" by (cases cs) auto
  have ne: "\<forall>y\<in>set rest. fst y \<noteq> opos" using c(3) d by force
  have r: "map (\<lambda>x. if fst x = opos then [] else if isVisuallyEmptyCell (snd x) then []
                           else meaningfulBlocksFromCell (snd x)) rest
              = map (\<lambda>x. if isVisuallyEmptyCell (snd x) then [] else meaningfulBlocksFromCell (snd x)) rest"
    by (rule map_cong) (use ne in auto)
  show ?thesis using c o by (simp add: mergedBlocksOf_def comp_def r)
qed

lemma merge_success:
  assumes sel: "es_selection st = Some sel"
    and m: "mergeInternal st dp = Inr (True, d')"
    and rc: "rc = rectBetween (anchorCell sel) (headCell sel)"
  shows "\<exists>cs origin oid.
           sel_ok (es_doc st) sel \<and> es_hasParagraph st \<and>
           \<not> (r_right rc - r_left rc = 1 \<and> r_bottom rc - r_top rc = 1) \<and>
           collectCells (table_grid (es_doc st ! sel_table sel)) rc = Some cs \<and>
           \<not> list_ex (\<lambda>x. truthy (rmMergedTo (snd x)) \<or> isMergedOrigin (snd x)) cs \<and>
           List.find (\<lambda>x. fst x = (r_top rc, r_left rc)) cs = Some ((r_top rc, r_left rc), origin) \<and>
           rmCellId origin = Some oid \<and> oid \<noteq> [] \<and>
           (if dp then
           d' = replaceCell (sel_table sel) (r_top rc, r_left rc)
                  (mergedOriginCell origin rc
                     (let bs = mergedBlocksOf (r_top rc, r_left rc) origin cs
                      in if bs = [] then [emptyParagraph] else bs))
                  (foldl (\<lambda>dd u. replaceCell (sel_table sel) (fst u) (snd u) dd) (es_doc st)
                     (rev (map (\<lambda>x. (fst x, coveredCell oid (r_top rc) [emptyParagraph] x))
                             (filter (\<lambda>x. fst x \<noteq> (r_top rc, r_left rc)) cs))))
            else d' = es_doc st)"
proof -
  have ok: "sel_ok (es_doc st) sel"
    using sel m by (auto simp: mergeInternal_def split: if_splits)
  have n11: "\<not> (r_right rc - r_left rc = 1 \<and> r_bottom rc - r_top rc = 1)"
    using sel m ok rc by (auto simp: mergeInternal_def Let_def split: if_splits)
  obtain cs where cs: "collectCells (table_grid (es_doc st ! sel_table sel)) rc = Some cs"
    using sel m ok rc n11 by (cases "collectCells (table_grid (es_doc st ! sel_table sel)) rc")
      (auto simp: mergeInternal_def Let_def)
  have nm: "\<not> list_ex (\<lambda>x. truthy (rmMergedTo (snd x)) \<or> isMergedOrigin (snd x)) cs"
    using sel m ok rc n11 cs by (auto simp: mergeInternal_def Let_def split: if_splits)
  obtain origin where fo: "List.find (\<lambda>x. fst x = (r_top rc, r_left rc)) cs = Some ((r_top rc, r_left rc), origin)"
    using find_origin[of "table_grid (es_doc st ! sel_table sel)" "anchorCell sel" "headCell sel" cs] cs rc
    by auto
  show ?thesis
    using sel m ok rc n11 cs nm fo
    by (auto simp: mergeInternal_def Let_def emptyCellContent_def mergedOriginCell_def
        split: if_splits option.splits)
qed

lemma map_filter_fst_snd:
  "\<forall>x\<in>set cs. f (fst x) = Some (snd x) \<Longrightarrow> List.map_filter f (map fst cs) = map snd cs"
  by (induction cs) (auto simp: List.map_filter_simps)

lemma map_of_tagged:
  "distinct (map fst xs) \<Longrightarrow> x \<in> set xs \<Longrightarrow> map_of (map (\<lambda>x. (fst x, f x)) xs) (fst x) = Some (f x)"
  by (induction xs) (auto simp: rev_image_eqI)

lemma map_of_tagged_None:
  "p \<notin> fst ` set xs \<Longrightarrow> map_of (map (\<lambda>x. (fst x, f x)) xs) p = None"
  by (induction xs) auto

lemma rectCells_collect:
  assumes "ti < length d" "collectCells (table_grid (d ! ti)) rc = Some cs"
  shows "rectCells d ti rc = map snd cs"
proof -
  have "\<forall>x\<in>set cs. cellAt d ti (fst x) = Some (snd x)"
    using collectCells_snd[OF assms(2)] assms(1) by (simp add: cellAt_def)
  then show ?thesis
    unfolding rectCells_def collectCells_fst[OF assms(2), symmetric]
    by (rule map_filter_fst_snd)
qed

lemma in_grid_positions:
  "x \<in> set (grid_positions g) \<longleftrightarrow> map_cell g (fst (fst x)) (snd (fst x)) = Some (snd x)"
proof -
  obtain r c n where x: "x = ((r, c), n)" by (metis prod.collapse)
  have "((r, c), n) \<in> set (grid_positions g) \<longleftrightarrow> (r < length g \<and> c < length (g ! r) \<and> n = g ! r ! c)"
  proof
    assume "((r, c), n) \<in> set (grid_positions g)"
    then have "\<exists>b. (r, b) \<in> set (enumerate 0 g) \<and> (c, n) \<in> set (enumerate 0 b)"
      unfolding grid_positions_def by auto
    then show "r < length g \<and> c < length (g ! r) \<and> n = g ! r ! c"
      by (auto simp: in_set_enumerate_eq)
  next
    assume a: "r < length g \<and> c < length (g ! r) \<and> n = g ! r ! c"
    then have 1: "(r, g ! r) \<in> set (enumerate 0 g)" by (simp add: in_set_enumerate_eq)
    have 2: "(c, n) \<in> set (enumerate 0 (g ! r))" using a by (simp add: in_set_enumerate_eq)
    have "((r, c), n) \<in> set (map (\<lambda>(c, n). ((r, c), n)) (enumerate 0 (g ! r)))"
      using 2 by force
    then show "((r, c), n) \<in> set (grid_positions g)"
      unfolding grid_positions_def using 1 by force
  qed
  then show ?thesis unfolding x map_cell_def by auto
qed

lemma row_le_map_width: "r < length g \<Longrightarrow> length (g ! r) \<le> map_width g"
proof (induction g arbitrary: r)
  case Nil then show ?case by simp
next
  case (Cons a g)
  show ?case
  proof (cases r)
    case 0 then show ?thesis by (simp add: map_width_def)
  next
    case (Suc m)
    then have "length (g ! m) \<le> map_width g" using Cons by simp
    then show ?thesis using Suc by (simp add: map_width_def)
  qed
qed

lemma rows_replaceCell:
  "map (\<lambda>r. length (cells r)) (doc_rows (replaceCell ti p new d))
   = map (\<lambda>r. length (cells r)) (doc_rows d)"
proof (cases "ti < length d")
  case False then show ?thesis by (simp add: replaceCell_def)
next
  case True
  let ?t = "d ! ti"
  let ?t' = "?t\<lparr>children := setRowMarkup_children (fst p)
                  (\<lambda>r. r\<lparr>cells := (cells r)[snd p := new]\<rparr>) (children ?t)\<rparr>"
  have "map (\<lambda>r. length (cells r)) (table_rows ?t') = map (\<lambda>r. length (cells r)) (table_rows ?t)"
    by (simp add: table_rows_def rows_setRowMarkup_children map_update)
       (metis list_update_id map_update)
  then have "map (\<lambda>t. map (\<lambda>r. length (cells r)) (table_rows t)) (d[ti := ?t'])
           = map (\<lambda>t. map (\<lambda>r. length (cells r)) (table_rows t)) d"
    using True by (simp add: map_update list_update_same_conv)
  then have "concat (map (\<lambda>t. map (\<lambda>r. length (cells r)) (table_rows t)) (d[ti := ?t']))
           = concat (map (\<lambda>t. map (\<lambda>r. length (cells r)) (table_rows t)) d)"
    by simp
  then show ?thesis using True
    by (simp add: replaceCell_def doc_rows_def map_concat comp_def)
qed

lemma cell_count_replaceCell [simp]: "cell_count (replaceCell ti p new d) = cell_count d"
  unfolding cell_count_def
  by (metis rows_replaceCell)

lemma cell_count_foldl_replace [simp]:
  "cell_count (foldl (\<lambda>dd u. replaceCell ti (fst u) (snd u) dd) d us) = cell_count d"
  by (induction us arbitrary: d) simp_all

lemma length_foldl_replace [simp]:
  "length (foldl (\<lambda>dd u. replaceCell ti (fst u) (snd u) dd) d us) = length d"
  by (induction us arbitrary: d) simp_all

lemma map_filter_all_Some:
  "\<forall>p\<in>set ps. F p = Some (G p) \<Longrightarrow> List.map_filter F ps = map G ps"
  by (induction ps) (auto simp: List.map_filter_simps)

lemma merge_cells:
  assumes sel: "es_selection st = Some sel"
    and m: "mergeInternal st True = Inr (True, d')"
    and rc: "rc = rectBetween (anchorCell sel) (headCell sel)"
    and ti: "ti = sel_table sel"
  shows "\<exists>origin oid.
           cellAt (es_doc st) ti (r_top rc, r_left rc) = Some origin \<and>
           rmCellId origin = Some oid \<and> oid \<noteq> [] \<and> length d' = length (es_doc st) \<and>
           cell_count d' = cell_count (es_doc st) \<and>
           (\<forall>q. cellAt d' ti q =
              (if q = (r_top rc, r_left rc)
               then Some (mergedOriginCell origin rc (mergedContentOf (rectCells (es_doc st) ti rc)))
               else if q \<in> set (rect_positions rc)
               then map_option (\<lambda>n. coveredCell oid (r_top rc) [emptyParagraph] (q, n))
                      (cellAt (es_doc st) ti q)
               else cellAt (es_doc st) ti q)) \<and>
           (\<forall>q\<in>set (rect_positions rc). cellAt (es_doc st) ti q \<noteq> None)"
proof -
  let ?d = "es_doc st" and ?o = "(r_top rc, r_left rc)"
  from merge_success[OF sel m rc] obtain cs origin oid where
    ok: "sel_ok ?d sel"
    and cs: "collectCells (table_grid (?d ! sel_table sel)) rc = Some cs"
    and fo: "List.find (\<lambda>x. fst x = ?o) cs = Some (?o, origin)"
    and oid: "rmCellId origin = Some oid" "oid \<noteq> []"
    and d': "d' = replaceCell (sel_table sel) ?o
                  (mergedOriginCell origin rc
                     (let bs = mergedBlocksOf ?o origin cs
                      in if bs = [] then [emptyParagraph] else bs))
                  (foldl (\<lambda>dd u. replaceCell (sel_table sel) (fst u) (snd u) dd) ?d
                     (rev (map (\<lambda>x. (fst x, coveredCell oid (r_top rc) [emptyParagraph] x))
                             (filter (\<lambda>x. fst x \<noteq> ?o) cs))))"
    by auto
  let ?us = "map (\<lambda>x. (fst x, coveredCell oid (r_top rc) [emptyParagraph] x))
                             (filter (\<lambda>x. fst x \<noteq> ?o) cs)"
  let ?d1 = "foldl (\<lambda>dd u. replaceCell (sel_table sel) (fst u) (snd u) dd) ?d (rev ?us)"
  have tl: "ti < length ?d" using ok ti by (simp add: sel_ok_def)
  have fst_cs: "map fst cs = rect_positions rc" by (rule collectCells_fst[OF cs])
  have dist: "distinct (map fst cs)" unfolding fst_cs by (rule distinct_rect_positions)
  have at: "\<And>x. x \<in> set cs \<Longrightarrow> cellAt ?d ti (fst x) = Some (snd x)"
    using collectCells_snd[OF cs] tl ti by (simp add: cellAt_def)
  have hd_pos: "map fst cs = ?o # tl (rect_positions rc)"
    unfolding fst_cs rc by (rule rect_positions_hd)
  then obtain x rest where xs: "cs = x # rest" "fst x = ?o" by (cases cs) auto
  have horig: "snd (hd cs) = origin" using fo xs by simp
  have oin: "(?o, origin) \<in> set cs" using fo xs by (cases x) auto
  have at_o: "cellAt ?d ti ?o = Some origin" using at[OF oin] by simp
  have content: "(let bs = mergedBlocksOf ?o origin cs in if bs = [] then [emptyParagraph] else bs)
                 = mergedContentOf (rectCells ?d ti rc)"
  proof -
    have "mergedBlocksOf ?o origin cs =
            concat (map (\<lambda>c. if isVisuallyEmptyCell c then [] else meaningfulBlocksFromCell c) (map snd cs))"
      by (rule mergedBlocksOf_spec[OF hd_pos _ horig]) (use dist hd_pos in simp)
    then show ?thesis
      using rectCells_collect[OF tl cs[unfolded ti[symmetric]]]
      by (simp add: mergedContentOf_alt Let_def)
  qed
  have us_o: "map_of ?us ?o = None"
    by (rule map_of_tagged_None) auto
  have d1_o: "cellAt ?d1 ti ?o = Some origin"
    using at_o us_o by (simp add: cellAt_foldl_replace ti)
  have r1: "cellAt d' ti ?o = Some (mergedOriginCell origin rc (mergedContentOf (rectCells ?d ti rc)))"
    unfolding d' using d1_o content
    by (simp add: cellAt_replaceCell ti)
  have r2: "\<And>p. p \<in> set (rect_positions rc) \<Longrightarrow> p \<noteq> ?o \<Longrightarrow>
             cellAt ?d ti p \<noteq> None \<and>
             cellAt d' ti p = map_option (\<lambda>n. coveredCell oid (r_top rc) [emptyParagraph] (p, n))
                      (cellAt ?d ti p)"
  proof -
    fix p assume p: "p \<in> set (rect_positions rc)" "p \<noteq> ?o"
    then have "p \<in> fst ` set cs" using fst_cs by (metis set_map)
    then obtain y where y: "y \<in> set cs" "fst y = p" by auto
    have yf: "y \<in> set (filter (\<lambda>x. fst x \<noteq> ?o) cs)" using y p by simp
    have df: "distinct (map fst (filter (\<lambda>x. fst x \<noteq> ?o) cs))"
      using dist by (simp add: distinct_map_filter)
    have mo: "map_of ?us p = Some (coveredCell oid (r_top rc) [emptyParagraph] y)"
      using map_of_tagged[OF df yf, of "coveredCell oid (r_top rc) [emptyParagraph]"] y by simp
    have "cellAt ?d1 ti p = Some (coveredCell oid (r_top rc) [emptyParagraph] y)"
      using at[OF y(1)] y(2) mo by (simp add: cellAt_foldl_replace ti)
    then have "cellAt d' ti p = Some (coveredCell oid (r_top rc) [emptyParagraph] y)"
      unfolding d' using p(2) by (simp add: cellAt_replaceCell ti)
    moreover have "y = (p, snd y)" using y(2) by (cases y) simp
    ultimately show "cellAt ?d ti p \<noteq> None \<and>
             cellAt d' ti p = map_option (\<lambda>n. coveredCell oid (r_top rc) [emptyParagraph] (p, n))
                      (cellAt ?d ti p)" using at[OF y(1)] y(2) by simp
  qed
  have r3: "\<And>q. q \<notin> set (rect_positions rc) \<Longrightarrow> cellAt d' ti q = cellAt ?d ti q"
  proof -
    fix q assume q: "q \<notin> set (rect_positions rc)"
    have "q \<notin> fst ` set (filter (\<lambda>x. fst x \<noteq> ?o) cs)"
      using q fst_cs by (metis (no_types, lifting) filter_is_subset image_mono set_map subsetD)
    then have "map_of ?us q = None" by (rule map_of_tagged_None)
    then have "cellAt ?d1 ti q = cellAt ?d ti q" by (simp add: cellAt_foldl_replace ti)
    moreover have "q \<noteq> ?o" using q origin_in_rect[of "anchorCell sel" "headCell sel"] rc by auto
    ultimately show "cellAt d' ti q = cellAt ?d ti q"
      unfolding d' by (simp add: cellAt_replaceCell ti)
  qed
  have oinr: "?o \<in> set (rect_positions rc)" using origin_in_rect[of "anchorCell sel" "headCell sel"] rc by simp
  have all: "\<forall>q. cellAt d' ti q =
              (if q = ?o
               then Some (mergedOriginCell origin rc (mergedContentOf (rectCells ?d ti rc)))
               else if q \<in> set (rect_positions rc)
               then map_option (\<lambda>n. coveredCell oid (r_top rc) [emptyParagraph] (q, n))
                      (cellAt ?d ti q)
               else cellAt ?d ti q)"
    using r1 r2 r3 by auto
  have ex: "\<forall>q\<in>set (rect_positions rc). cellAt ?d ti q \<noteq> None"
    using r2 at_o by auto
  have len: "length d' = length ?d" unfolding d' by simp
  have cc: "cell_count d' = cell_count ?d" unfolding d' by simp
  show ?thesis using at_o oid len cc all ex by blast
qed

lemma those_all_Some:
  "\<forall>p\<in>set ps. f p \<noteq> None \<Longrightarrow> \<exists>cs. those (map (\<lambda>p. map_option (\<lambda>n. (p, n)) (f p)) ps) = Some cs"
  by (induction ps) (auto split: option.splits)

lemma corners_in_rect:
  "a \<in> set (rect_positions (rectBetween a b))" "b \<in> set (rect_positions (rectBetween a b))"
  by (cases a; cases b; auto simp: rect_positions_def rectBetween_def)+

lemma merge_decides:
  assumes para: "es_hasParagraph st" and sel: "es_selection st = Some sel"
    and ok: "sel_ok (es_doc st) sel"
    and rc: "rc = rectBetween (anchorCell sel) (headCell sel)" and ti: "ti = sel_table sel"
    and n11: "\<not> (r_right rc - r_left rc = 1 \<and> r_bottom rc - r_top rc = 1)"
    and normal: "allNormal (es_doc st) ti rc"
  shows "\<exists>origin d1. cellAt (es_doc st) ti (r_top rc, r_left rc) = Some origin \<and>
           mergeInternal st True = Inr (truthy (rmCellId origin), d1)"
proof -
  let ?d = "es_doc st" and ?o = "(r_top rc, r_left rc)"
  let ?g = "table_grid (?d ! sel_table sel)"
  have tl: "ti < length ?d" using ok ti by (simp add: sel_ok_def)
  have ex: "\<forall>p\<in>set (rect_positions rc). map_cell ?g (fst p) (snd p) \<noteq> None"
    using normal tl ti by (auto simp: allNormal_def list_all_iff cellAt_def split: option.splits)
  then obtain cs where cs: "collectCells ?g rc = Some cs"
    unfolding collectCells_def using those_all_Some[of "rect_positions rc" "\<lambda>p. map_cell ?g (fst p) (snd p)"]
    by blast
  have nm: "\<not> list_ex (\<lambda>x. truthy (rmMergedTo (snd x)) \<or> isMergedOrigin (snd x)) cs"
  proof -
    { fix x assume x: "x \<in> set cs"
      have "fst x \<in> set (rect_positions rc)" using collectCells_fst[OF cs] x by (metis image_eqI set_map)
      moreover have "cellAt ?d ti (fst x) = Some (snd x)"
        using collectCells_snd[OF cs x] tl ti by (simp add: cellAt_def)
      ultimately have "isNormalCell (snd x)" using normal by (auto simp: allNormal_def list_all_iff)
      then have "\<not> (truthy (rmMergedTo (snd x)) \<or> isMergedOrigin (snd x))"
        by (simp add: isNormalCell_def truthy_def isMergedOrigin_def) }
    then show ?thesis by (auto simp: list_ex_iff)
  qed
  obtain origin where fo: "List.find (\<lambda>x. fst x = ?o) cs = Some (?o, origin)"
    using find_origin[of ?g "anchorCell sel" "headCell sel" cs] cs rc by auto
  then have "(?o, origin) \<in> set cs" by (auto simp: find_Some_iff in_set_conv_nth) 
  then have at_o: "cellAt ?d ti ?o = Some origin"
    using collectCells_snd[OF cs] tl ti by (fastforce simp add: cellAt_def)
  have "\<exists>d1. mergeInternal st True = Inr (truthy (rmCellId origin), d1)"
    using sel ok rc n11 cs nm fo para
    by (auto simp: mergeInternal_def Let_def emptyCellContent_def truthy_def split: option.splits)
  then show ?thesis using at_o by blast
qed

lemma unmerge_normal:
  assumes sel: "es_selection st = Some sel" and ok: "sel_ok (es_doc st) sel"
    and a: "cellAt (es_doc st) (sel_table sel) (anchorCell sel) = Some na" "isNormalCell na"
    and h: "cellAt (es_doc st) (sel_table sel) (headCell sel) = Some nh" "isNormalCell nh"
  shows "unmergeInternal st dp = Inr (False, es_doc st)"
proof -
  have tl: "sel_table sel < length (es_doc st)" using ok by (simp add: sel_ok_def)
  have 1: "mergeIdOf na = None" using a(2) by (simp add: mergeIdOf_def isNormalCell_def truthy_def isMergedOrigin_def)
  have 2: "mergeIdOf nh = None" using h(2) by (simp add: mergeIdOf_def isNormalCell_def truthy_def isMergedOrigin_def)
  show ?thesis using sel ok a(1) h(1) tl 1 2
    by (simp add: unmergeInternal_def Let_def cellAt_def truthy_def)
qed

lemma unmerge_after_merge:
  assumes para: "es_hasParagraph st" and sel: "es_selection st = Some sel"
    and rc: "rc = rectBetween (anchorCell sel) (headCell sel)" and ti: "ti = sel_table sel"
    and w: "r_right rc - r_left rc = 2" and h: "r_bottom rc - r_top rc = 2"
    and m: "mergeInternal st True = Inr (True, d1)"
    and uniq: "idUniqueAt (es_doc st) ti (r_top rc, r_left rc)"
  shows "\<exists>d2. unmergeInternal (st\<lparr>es_doc := d1\<rparr>) True = Inr (True, d2) \<and>
           cell_count d2 = cell_count (es_doc st) \<and>
           spansReset d2 ti rc"
proof -
  let ?d = "es_doc st" and ?o = "(r_top rc, r_left rc)"
  from merge_cells[OF sel m rc ti] obtain origin oid where
    at_o: "cellAt ?d ti ?o = Some origin" and oid: "rmCellId origin = Some oid" "oid \<noteq> []"
    and len: "length d1 = length ?d" and cc: "cell_count d1 = cell_count ?d"
    and all: "\<And>q. cellAt d1 ti q =
              (if q = ?o
               then Some (mergedOriginCell origin rc (mergedContentOf (rectCells ?d ti rc)))
               else if q \<in> set (rect_positions rc)
               then map_option (\<lambda>n. coveredCell oid (r_top rc) [emptyParagraph] (q, n))
                      (cellAt ?d ti q)
               else cellAt ?d ti q)"
    and ex: "\<And>q. q \<in> set (rect_positions rc) \<Longrightarrow> cellAt ?d ti q \<noteq> None"
    by blast
  let ?MO = "mergedOriginCell origin rc (mergedContentOf (rectCells ?d ti rc))"
  let ?g1 = "table_grid (d1 ! ti)"
  have ok: "sel_ok ?d sel" using merge_success[OF sel m rc] by blast
  have tl: "ti < length ?d" using ok ti by (simp add: sel_ok_def)
  have tl1: "ti < length d1" using tl len by simp
  have mc: "\<And>r c. map_cell ?g1 r c = cellAt d1 ti (r, c)" using tl1 by (simp add: cellAt_def)
  have oinr: "?o \<in> set (rect_positions rc)"
    using origin_in_rect[of "anchorCell sel" "headCell sel"] rc by simp
  \<comment> \<open>every cell of the rectangle names the merge\<close>
  have mid: "\<And>p. p \<in> set (rect_positions rc) \<Longrightarrow>
               \<exists>n. cellAt d1 ti p = Some n \<and> mergeIdOf n = Some oid \<and>
                   (p \<noteq> ?o \<longrightarrow> rmMergedTo n = Some oid)"
  proof -
    fix p assume p: "p \<in> set (rect_positions rc)"
    show "\<exists>n. cellAt d1 ti p = Some n \<and> mergeIdOf n = Some oid \<and> (p \<noteq> ?o \<longrightarrow> rmMergedTo n = Some oid)"
    proof (cases "p = ?o")
      case True
      have "mergeIdOf ?MO = Some oid"
        using oid w by (simp add: mergeIdOf_def mergedOriginCell_def truthy_def isMergedOrigin_def)
      then show ?thesis using True all[of p] by simp
    next
      case False
      obtain n where n: "cellAt ?d ti p = Some n" using ex[OF p] by auto
      have "mergeIdOf (coveredCell oid (r_top rc) [emptyParagraph] (p, n)) = Some oid"
        using oid by (simp add: mergeIdOf_def coveredCell_def truthy_def)
      then show ?thesis using False all[of p] p n by (simp add: coveredCell_def)
    qed
  qed
  have ain: "anchorCell sel \<in> set (rect_positions rc)" unfolding rc by (rule corners_in_rect(1))
  have hin: "headCell sel \<in> set (rect_positions rc)" unfolding rc by (rule corners_in_rect(2))
  have sel1: "sel_ok d1 sel"
    using mid[OF ain] mid[OF hin] tl1 ti
    by (auto simp: sel_ok_def cellAt_def)
  obtain na where na: "map_cell ?g1 (fst (anchorCell sel)) (snd (anchorCell sel)) = Some na"
      "mergeIdOf na = Some oid"
    using mid[OF ain] mc by auto
  \<comment> \<open>the origin is the only flagged cell with this id\<close>
  have ids: "\<And>q n. cellAt d1 ti q = Some n \<Longrightarrow> q \<noteq> ?o \<Longrightarrow> rmCellId n \<noteq> Some oid"
  proof -
    fix q n assume q: "cellAt d1 ti q = Some n" "q \<noteq> ?o"
    obtain n0 where n0: "cellAt ?d ti q = Some n0" "rmCellId n = rmCellId n0"
      using q all[of q] by (auto simp: coveredCell_def split: if_splits)
    have "(q, n0) \<in> set (grid_positions (table_grid (?d ! ti)))"
      using n0(1) tl by (simp add: in_grid_positions cellAt_def)
    then have "Some (rmCellId n0) \<noteq> map_option rmCellId (cellAt ?d ti ?o)"
      using uniq q(2) by (auto simp: idUniqueAt_def list_all_iff)
    then show "rmCellId n \<noteq> Some oid" using n0(2) at_o oid by simp
  qed
  have fnd: "findOrigin ?g1 oid = Some (?o, ?MO)"
  proof -
    let ?P = "\<lambda>x. rmCellId (snd x) = Some oid \<and>
                     (rmMergeOrigin (snd x) \<or> (rmRowspan (snd x) > 1 \<or> rmColspan (snd x) > 1))"
    have in1: "(?o, ?MO) \<in> set (grid_positions ?g1)"
      using all[of ?o] by (simp add: in_grid_positions mc)
    have P1: "?P (?o, ?MO)" using oid by (simp add: mergedOriginCell_def)
    have "List.find ?P (grid_positions ?g1) \<noteq> None"
      unfolding find_None_iff using in1 P1 by blast
    then obtain y where y: "List.find ?P (grid_positions ?g1) = Some y" by auto
    then have yP: "?P y" and yin: "y \<in> set (grid_positions ?g1)"
      by (auto simp: find_Some_iff in_set_conv_nth)
    have ycell: "cellAt d1 ti (fst y) = Some (snd y)"
      using yin tl1 by (simp add: in_grid_positions cellAt_def)
    have "fst y = ?o" using ids[OF ycell] yP by blast
    then have "y = (?o, ?MO)" using ycell all[of ?o] by (cases y) simp
    then show ?thesis using y by (simp add: findOrigin_def)
  qed
  \<comment> \<open>the rectangle recomputed from the spans is the merged rectangle\<close>
  have rows: "r_top rc + 2 \<le> length ?g1"
  proof -
    have "(r_top rc + 1, r_left rc) \<in> set (rect_positions rc)"
      using w h by (auto simp: rect_positions_def)
    from mid[OF this] show ?thesis by (auto simp: cellAt_def map_cell_def split: if_splits)
  qed
  have cols: "r_left rc + 2 \<le> map_width ?g1"
  proof -
    have "(r_top rc, r_left rc + 1) \<in> set (rect_positions rc)"
      using w h by (auto simp: rect_positions_def)
    from mid[OF this] have "r_top rc < length ?g1 \<and> r_left rc + 1 < length (?g1 ! r_top rc)"
      by (auto simp: cellAt_def map_cell_def split: if_splits)
    then show ?thesis using row_le_map_width[of "r_top rc" ?g1] by linarith
  qed
  have rect': "\<lparr>r_left = r_left rc, r_top = r_top rc,
                r_right = nat (min (int (r_left rc) + 2) (int (map_width ?g1))),
                r_bottom = nat (min (int (r_top rc) + 2) (int (length ?g1)))\<rparr> = rc"
    using rows cols w h by (cases rc) auto
  let ?G = "\<lambda>p. (p, if p = ?o then normalCell ?MO (content ?MO)
                      else normalCell (the (cellAt d1 ti p)) [emptyParagraph])"
  have ups: "unmergeUpdates ?g1 ?o oid [emptyParagraph] rc = map ?G (rect_positions rc)"
    unfolding unmergeUpdates_def
  proof (rule map_filter_all_Some, rule ballI)
    fix p assume p: "p \<in> set (rect_positions rc)"
    from mid[OF p] obtain n where n: "cellAt d1 ti p = Some n" "p \<noteq> ?o \<longrightarrow> rmMergedTo n = Some oid"
      by blast
    show "(case map_cell ?g1 (fst p) (snd p) of None \<Rightarrow> None
           | Some n \<Rightarrow> if p = ?o then Some (p, normalCell n (content n))
                       else if rmMergedTo n = Some oid then Some (p, normalCell n [emptyParagraph])
                       else None) = Some (?G p)"
      using n all[of ?o] by (auto simp: mc)
  qed
  let ?d2 = "foldl (\<lambda>dd u. replaceCell ti (fst u) (snd u) dd) d1 (rev (map ?G (rect_positions rc)))"
  have ne: "length (map ?G (rect_positions rc)) \<noteq> 0" using oinr by auto
  have run: "unmergeInternal (st\<lparr>es_doc := d1\<rparr>) True = Inr (True, ?d2)"
    using sel sel1 na fnd para rect' ups ne oid w h ti tl1
    by (simp add: unmergeInternal_def Let_def truthy_def emptyCellContent_def mergedOriginCell_def)
  have spans: "spansReset ?d2 ti rc"
    unfolding spansReset_def list_all_iff
  proof
    fix p assume p: "p \<in> set (rect_positions rc)"
    have "map_of (map ?G (rect_positions rc)) p = Some (snd (?G p))"
      using p by (induction "rect_positions rc") (auto simp: map_of_map_restrict restrict_map_def map_of_eq_None_iff)
    moreover have "cellAt d1 ti p \<noteq> None" using mid[OF p] by auto
    ultimately have "cellAt ?d2 ti p = Some (snd (?G p))"
      by (simp add: cellAt_foldl_replace)
    then show "case cellAt ?d2 ti p of None \<Rightarrow> False | Some n \<Rightarrow> rmColspan n = 1 \<and> rmRowspan n = 1"
      by (simp add: normalCell_def)
  qed
  have "cell_count ?d2 = cell_count ?d" using cc by simp
  then show ?thesis using run spans by blast
qed

subsection \<open>Claims about the merge engine\<close>

text \<open>
  Claim C4. For every selection rectangle that is 1x1, or that contains a covered cell
  (\<open>rmMergedTo\<close> set) or the origin of a merge (\<open>rmMergeOrigin\<close> with a span above 1),
  the merge command returns \<open>false\<close> and leaves the document unchanged.
\<close>

theorem merge_rejects_overlap:
  assumes sel: "es_selection st = Some sel" and ok: "sel_ok (es_doc st) sel"
    and rc: "rc = rectBetween (anchorCell sel) (headCell sel)"
    and bad: "(r_right rc - r_left rc = 1 \<and> r_bottom rc - r_top rc = 1) \<or>
              rectMerged (es_doc st) (sel_table sel) rc"
  shows "mergeInternal st dp = Inr (False, es_doc st)"
proof (cases "r_right rc - r_left rc = 1 \<and> r_bottom rc - r_top rc = 1")
  case True
  then show ?thesis using sel ok rc by (simp add: mergeInternal_def Let_def)
next
  case False
  let ?g = "table_grid (es_doc st ! sel_table sel)"
  have ti: "sel_table sel < length (es_doc st)" using ok by (simp add: sel_ok_def)
  from False bad obtain p n where p: "p \<in> set (rect_positions rc)"
    and n: "map_cell ?g (fst p) (snd p) = Some n" "isCoveredCell n \<or> isMergedOrigin n"
    using ti by (auto simp: rectMerged_def list_ex_iff cellAt_def split: option.splits)
  show ?thesis
  proof (cases "collectCells ?g rc")
    case None
    then show ?thesis using sel ok rc False by (simp add: mergeInternal_def Let_def)
  next
    case (Some cs)
    have "p \<in> fst ` set cs" using collectCells_fst[OF Some] p by (metis set_map)
    then obtain x where x: "x \<in> set cs" "fst x = p" by auto
    have "snd x = n" using collectCells_snd[OF Some x(1)] n(1) x(2) by simp
    then have "list_ex (\<lambda>x. truthy (rmMergedTo (snd x)) \<or> isMergedOrigin (snd x)) cs"
      using x(1) n(2) by (auto simp: list_ex_iff isCoveredCell_def)
    then show ?thesis using sel ok rc False Some by (simp add: mergeInternal_def Let_def)
  qed
qed

theorem merge_rejects_overlap_witness:
  "es_selection \<lparr>es_doc = afterMerge (editor22 False True (0, 0) (0, 1)),
                 es_selection = Some (selection22 (0, 1) (1, 1)), es_cursor = None, es_hasParagraph = True\<rparr>
     = Some (selection22 (0, 1) (1, 1)) \<and>
   sel_ok (afterMerge (editor22 False True (0, 0) (0, 1))) (selection22 (0, 1) (1, 1)) \<and>
   rectMerged (afterMerge (editor22 False True (0, 0) (0, 1))) 0 (rectBetween (0, 1) (1, 1)) \<and>
   mergeInternal \<lparr>es_doc = afterMerge (editor22 False True (0, 0) (0, 1)),
                  es_selection = Some (selection22 (0, 1) (1, 1)), es_cursor = None, es_hasParagraph = True\<rparr> True
     = Inr (False, afterMerge (editor22 False True (0, 0) (0, 1)))"
proof -
  let ?d = "afterMerge (editor22 False True (0, 0) (0, 1))"
  let ?st = "\<lparr>es_doc = ?d, es_selection = Some (selection22 (0, 1) (1, 1)), es_cursor = None, es_hasParagraph = True\<rparr>"
  have s: "es_selection ?st = Some (selection22 (0, 1) (1, 1))" by simp
  have ok: "sel_ok ?d (selection22 (0, 1) (1, 1))" by code_simp
  have ok': "sel_ok (es_doc ?st) (selection22 (0, 1) (1, 1))" using ok by simp
  have bad: "rectMerged ?d 0 (rectBetween (0, 1) (1, 1))" by code_simp
  have rc: "rectBetween (0, 1) (1, 1)
            = rectBetween (anchorCell (selection22 (0, 1) (1, 1))) (headCell (selection22 (0, 1) (1, 1)))"
    by (simp add: selection22_def)
  have bad': "(r_right (rectBetween (0, 1) (1, 1)) - r_left (rectBetween (0, 1) (1, 1)) = 1 \<and>
               r_bottom (rectBetween (0, 1) (1, 1)) - r_top (rectBetween (0, 1) (1, 1)) = 1) \<or>
              rectMerged (es_doc ?st) (sel_table (selection22 (0, 1) (1, 1))) (rectBetween (0, 1) (1, 1))"
    using bad by (simp add: selection22_def)
  show ?thesis
    using s ok bad merge_rejects_overlap[OF s ok' rc bad', of True] by simp
qed

lemma merge_composes:
  assumes sel: "es_selection st = Some sel"
    and m: "mergeInternal st True = Inr (True, d')"
    and rc: "rc = rectBetween (anchorCell sel) (headCell sel)"
    and ti: "ti = sel_table sel"
  shows "mergedInto (mergedContentOf (rectCells (es_doc st) ti rc)) (es_doc st) d' ti rc"
proof -
  let ?d = "es_doc st" and ?o = "(r_top rc, r_left rc)"
  from merge_cells[OF sel m rc ti] obtain origin oid where
    at_o: "cellAt ?d ti ?o = Some origin" and oid: "rmCellId origin = Some oid"
    and all: "\<And>q. cellAt d' ti q =
              (if q = ?o
               then Some (mergedOriginCell origin rc (mergedContentOf (rectCells ?d ti rc)))
               else if q \<in> set (rect_positions rc)
               then map_option (\<lambda>n. coveredCell oid (r_top rc) [emptyParagraph] (q, n))
                      (cellAt ?d ti q)
               else cellAt ?d ti q)"
    and ex: "\<And>q. q \<in> set (rect_positions rc) \<Longrightarrow> cellAt ?d ti q \<noteq> None"
    by blast
  have n11: "\<not> (r_right rc - r_left rc = 1 \<and> r_bottom rc - r_top rc = 1)"
    using merge_success[OF sel m rc] by blast
  have covered: "list_all (\<lambda>p. p = ?o \<or>
                              (case cellAt ?d ti p of
                                 None \<Rightarrow> False
                               | Some n \<Rightarrow> cellAt d' ti p = Some (coveredBy oid (fst p = r_top rc) n)))
                 (rect_positions rc)"
    unfolding list_all_iff
  proof
    fix p assume p: "p \<in> set (rect_positions rc)"
    obtain n where n: "cellAt ?d ti p = Some n" using ex[OF p] by auto
    show "p = ?o \<or> (case cellAt ?d ti p of
                       None \<Rightarrow> False
                     | Some n \<Rightarrow> cellAt d' ti p = Some (coveredBy oid (fst p = r_top rc) n))"
      using all[of p] p n by (simp add: coveredCell_def coveredBy_def)
  qed
  show ?thesis
    unfolding mergedInto_def using at_o oid n11 all[of ?o] covered by simp
qed


text \<open>
  The two helpers of the code and the words of the specification agree on a cell unless
  the cell holds text that is all white space: the code trims the text and then counts
  every text node as content.
\<close>

lemma merge_postcondition_agreeing:
  assumes sel: "es_selection st = Some sel"
    and m: "mergeInternal st True = Inr (True, d')"
    and rc: "rc = rectBetween (anchorCell sel) (headCell sel)"
    and ti: "ti = sel_table sel"
    and agree: "mergedContentOf (rectCells (es_doc st) ti rc) = spec_mergedContent (rectCells (es_doc st) ti rc)"
  shows "mergePostcondition (es_doc st) d' ti rc"
  using merge_composes[OF sel m rc ti] agree by (simp add: mergePostcondition_def)

lemma blank_merge_runs: "mergeInternal blankEditor True = Inr (True, afterMerge blankEditor)"
  by code_simp

lemma blank_cells_empty:
  "list_all spec_visuallyEmpty (rectCells blankGrid 0 (rectBetween (0, 0) (0, 1)))"
  by code_simp

lemma blank_spec_content:
  "spec_mergedContent (rectCells blankGrid 0 (rectBetween (0, 0) (0, 1))) = [emptyParagraph]"
  by code_simp

lemma blank_origin_content:
  "map_option content (cellAt (afterMerge blankEditor) 0 (0, 0))
     = Some [Textblock ''paragraph'' [] [Chr CHR 0x20, Chr CHR 0x20]]"
  by code_simp

lemma blank_not_post:
  "\<not> mergePostcondition blankGrid (afterMerge blankEditor) 0 (rectBetween (0, 0) (0, 1))"
  by code_simp

text \<open>
  Claim C3. After a successful merge of a rectangle of width w and height h (not 1x1) the
  top-left cell is the origin with \<open>rmColspan = w\<close> and \<open>rmRowspan = h\<close>, and its content
  is the concatenation, in row-major order starting with the origin, of the meaningful
  blocks of every cell of the rectangle that is not visually empty (a single empty
  paragraph if every cell was visually empty); every other cell of the rectangle is a
  covered cell. The code departs from this at a cell that holds only blanks: the
  specification calls it visually empty, \<open>isVisuallyEmptyCell\<close> does not. Merging an
  empty cell with a cell that holds two spaces succeeds, both cells are visually empty,
  and the origin receives the paragraph of blanks where the claim gives it one empty
  paragraph.
\<close>

theorem merge_keeps_blank_paragraph:
  "mergeInternal blankEditor True = Inr (True, afterMerge blankEditor) \<and>
   list_all spec_visuallyEmpty (rectCells blankGrid 0 (rectBetween (0, 0) (0, 1))) \<and>
   spec_mergedContent (rectCells blankGrid 0 (rectBetween (0, 0) (0, 1))) = [emptyParagraph] \<and>
   map_option content (cellAt (afterMerge blankEditor) 0 (0, 0))
     = Some [Textblock ''paragraph'' [] [Chr CHR 0x20, Chr CHR 0x20]] \<and>
   \<not> mergePostcondition blankGrid (afterMerge blankEditor) 0 (rectBetween (0, 0) (0, 1))"
  using blank_merge_runs blank_cells_empty blank_spec_content blank_origin_content blank_not_post
  by (intro conjI)

text \<open>
  Claim C5, as the code has it. Merge throws when the schema has no paragraph node
  (\<open>emptyCellContent\<close>), so the round trip is not available for every 2x2 rectangle of
  normal cells: the first statement is a rectangle of heading cells with distinct ids in
  such an editor. When the schema has a paragraph node and the top-left cell's \<open>rmCellId\<close>
  is carried by no other cell of the table (the data model's uniqueness of cell ids),
  merge followed by unmerge leaves \<open>rmColspan = 1\<close> and \<open>rmRowspan = 1\<close> on all four cells
  and the same number of cells in the document. Both commands return the same boolean:
  \<open>true\<close> when the top-left cell has an id, \<open>false\<close> (nothing happens) when it has none.
\<close>

theorem roundtrip_needs_paragraph:
  "sel_ok headingGrid (selection22 (0, 0) (1, 1)) \<and>
   allNormal headingGrid 0 (rectBetween (0, 0) (1, 1)) \<and>
   idUniqueAt headingGrid 0 (0, 0) \<and>
   mergeInternal (headingEditor (0, 0) (1, 1)) True = Inl SchemaError"
  by code_simp

theorem merge_unmerge_roundtrip:
  assumes para: "es_hasParagraph st" and sel: "es_selection st = Some sel"
    and ok: "sel_ok (es_doc st) sel"
    and rc: "rc = rectBetween (anchorCell sel) (headCell sel)" and ti: "ti = sel_table sel"
    and w: "r_right rc - r_left rc = 2" and h: "r_bottom rc - r_top rc = 2"
    and normal: "allNormal (es_doc st) ti rc"
    and uniq: "idUniqueAt (es_doc st) ti (r_top rc, r_left rc)"
  shows "\<exists>origin d1 d2.
           cellAt (es_doc st) ti (r_top rc, r_left rc) = Some origin \<and>
           mergeInternal st True = Inr (truthy (rmCellId origin), d1) \<and>
           unmergeInternal (st\<lparr>es_doc := d1\<rparr>) True = Inr (truthy (rmCellId origin), d2) \<and>
           spansReset d2 ti rc \<and> cell_count d2 = cell_count (es_doc st)"
proof -
  have n11: "\<not> (r_right rc - r_left rc = 1 \<and> r_bottom rc - r_top rc = 1)" using w by simp
  from merge_decides[OF para sel ok rc ti n11 normal] obtain origin d1 where
    o: "cellAt (es_doc st) ti (r_top rc, r_left rc) = Some origin"
    and m: "mergeInternal st True = Inr (truthy (rmCellId origin), d1)" by blast
  show ?thesis
  proof (cases "truthy (rmCellId origin)")
    case True
    then have m': "mergeInternal st True = Inr (True, d1)" using m by simp
    from unmerge_after_merge[OF para sel rc ti w h m' uniq] show ?thesis using m o True by auto
  next
    case False
    then have m': "mergeInternal st True = Inr (False, d1)" using m by simp
    have s: "case es_selection st of None \<Rightarrow> True | Some sel \<Rightarrow> sel_ok (es_doc st) sel"
      using sel ok by simp
    have d1: "d1 = es_doc st" using merge_returns[OF para s, of True] m' by auto
    have ain: "anchorCell sel \<in> set (rect_positions rc)" unfolding rc by (rule corners_in_rect(1))
    have hin: "headCell sel \<in> set (rect_positions rc)" unfolding rc by (rule corners_in_rect(2))
    obtain na where na: "cellAt (es_doc st) (sel_table sel) (anchorCell sel) = Some na" "isNormalCell na"
      using normal ain ti by (auto simp: allNormal_def list_all_iff split: option.splits)
    obtain nh where nh: "cellAt (es_doc st) (sel_table sel) (headCell sel) = Some nh" "isNormalCell nh"
      using normal hin ti by (auto simp: allNormal_def list_all_iff split: option.splits)
    have u: "unmergeInternal (st\<lparr>es_doc := d1\<rparr>) True = Inr (False, es_doc st)"
      using unmerge_normal[OF sel ok na nh, of True] d1 by simp
    have "spansReset (es_doc st) ti rc"
      using normal by (auto simp: allNormal_def spansReset_def list_all_iff isNormalCell_def
          split: option.splits)
    then show ?thesis using m u o False by auto
  qed
qed

theorem merge_unmerge_roundtrip_witness:
  "es_hasParagraph (editor22 False True (0, 0) (1, 1)) \<and>
   sel_ok (grid22 False) (selection22 (0, 0) (1, 1)) \<and>
   r_right (rectBetween (0, 0) (1, 1)) - r_left (rectBetween (0, 0) (1, 1)) = 2 \<and>
   r_bottom (rectBetween (0, 0) (1, 1)) - r_top (rectBetween (0, 0) (1, 1)) = 2 \<and>
   allNormal (grid22 False) 0 (rectBetween (0, 0) (1, 1)) \<and>
   idUniqueAt (grid22 False) 0 (0, 0) \<and>
   (\<exists>d1 d2. mergeInternal (editor22 False True (0, 0) (1, 1)) True = Inr (True, d1) \<and>
      unmergeInternal ((editor22 False True (0, 0) (1, 1))\<lparr>es_doc := d1\<rparr>) True = Inr (True, d2) \<and>
      spansReset d2 0 (rectBetween (0, 0) (1, 1)) \<and> cell_count d2 = cell_count (grid22 False))"
proof -
  let ?st = "editor22 False True (0, 0) (1, 1)" and ?sel = "selection22 (0, 0) (1, 1)"
  let ?rc = "rectBetween (0, 0) (1, 1)"
  have d: "es_doc ?st = grid22 False" by (simp add: editor22_def)
  have para: "es_hasParagraph ?st" by (simp add: editor22_def)
  have sel: "es_selection ?st = Some ?sel" by (simp add: editor22_def)
  have ok: "sel_ok (grid22 False) ?sel" by code_simp
  have rc: "?rc = rectBetween (anchorCell ?sel) (headCell ?sel)" by (simp add: selection22_def)
  have ti: "0 = sel_table ?sel" by (simp add: selection22_def)
  have w: "r_right ?rc - r_left ?rc = 2" by (simp add: rectBetween_def)
  have h: "r_bottom ?rc - r_top ?rc = 2" by (simp add: rectBetween_def)
  have normal: "allNormal (grid22 False) 0 ?rc" by code_simp
  have tl: "(r_top ?rc, r_left ?rc) = (0, 0)" by (simp add: rectBetween_def)
  have uniq: "idUniqueAt (grid22 False) 0 (0, 0)" by code_simp
  have uniq': "idUniqueAt (es_doc ?st) 0 (r_top ?rc, r_left ?rc)" using uniq d tl by simp
  have o: "cellAt (grid22 False) 0 (0, 0) = Some (textCell (Some ''a'') ''one'')" by code_simp
  have t: "truthy (rmCellId (textCell (Some ''a'') ''one''))" by code_simp
  note r = merge_unmerge_roundtrip[OF para sel ok[folded d] rc ti w h normal[folded d] uniq']
  from r[unfolded d tl] o t have
    "\<exists>d1 d2. mergeInternal ?st True = Inr (True, d1) \<and>
       unmergeInternal (?st\<lparr>es_doc := d1\<rparr>) True = Inr (True, d2) \<and>
       spansReset d2 0 ?rc \<and> cell_count d2 = cell_count (grid22 False)"
    by auto
  then show ?thesis
    using para ok w h normal uniq by blast
qed

subsection \<open>Rows of a document after a transaction\<close>

lemma rows_deleteRow_children:
  "concat (map child_rows (deleteRow_children n cs)) =
     take n (concat (map child_rows cs)) @ drop (Suc n) (concat (map child_rows cs))"
proof (induction n cs rule: deleteRow_children.induct)
  case (1 n) show ?case by simp
next
  case (2 n r cs)
  show ?case
  proof (cases n)
    case 0 then show ?thesis by simp
  next
    case (Suc m) then show ?thesis using 2 by simp
  qed
next
  case (3 n rs cs)
  show ?case
  proof (cases "n < length rs")
    case True then show ?thesis by simp
  next
    case False
    then show ?thesis using 3 by (simp add: Suc_diff_le)
  qed
qed


lemma doc_rows_Cons: "doc_rows (t # ts) = table_rows t @ doc_rows ts"
  by (simp add: doc_rows_def)

lemma doc_rows_Nil [simp]: "doc_rows [] = []"
  by (simp add: doc_rows_def)

lemma table_rows_children [simp]: "table_rows (t\<lparr>children := cs\<rparr>) = concat (map child_rows cs)"
  by (simp add: table_rows_def)

lemma rows_setRowMarkup:
  "doc_rows (setRowMarkup n f d) =
     (if n < length (doc_rows d) then (doc_rows d)[n := f (doc_rows d ! n)] else doc_rows d)"
proof (induction n f d rule: setRowMarkup.induct)
  case (1 n f) show ?case by simp
next
  case (2 n f t ts)
  show ?case
  proof (cases "n < length (table_rows t)")
    case True
    then show ?thesis
      by (simp add: doc_rows_Cons rows_setRowMarkup_children list_update_append1 nth_append
          table_rows_def)
  next
    case False
    then show ?thesis using 2
      by (auto simp: doc_rows_Cons list_update_append nth_append)
  qed
qed

lemma rows_deleteRow:
  "doc_rows (deleteRow n d) = take n (doc_rows d) @ drop (Suc n) (doc_rows d)"
proof (induction n d rule: deleteRow.induct)
  case (1 n) show ?case by simp
next
  case (2 n t ts)
  show ?case
  proof (cases "n < length (table_rows t)")
    case True
    then show ?thesis
      by (simp add: doc_rows_Cons rows_deleteRow_children table_rows_def)
  next
    case False
    then show ?thesis using 2
      by (simp add: doc_rows_Cons Suc_diff_le)
  qed
qed



lemma find_index_from_Some:
  "find_index_from k P xs = Some n \<Longrightarrow> k \<le> n \<and> n - k < length xs \<and> P (xs ! (n - k)) \<and> (\<forall>m < n - k. \<not> P (xs ! m))"
proof (induction xs arbitrary: k)
  case Nil then show ?case by simp
next
  case (Cons x xs)
  show ?case
  proof (cases "P x")
    case True then show ?thesis using Cons.prems by simp
  next
    case False
    then have f: "find_index_from (Suc k) P xs = Some n" using Cons.prems by simp
    from Cons.IH[OF f] have ih: "Suc k \<le> n" "n - Suc k < length xs" "P (xs ! (n - Suc k))"
      "\<forall>m < n - Suc k. \<not> P (xs ! m)" by auto
    have e: "n - k = Suc (n - Suc k)" using ih(1) by simp
    show ?thesis unfolding e using ih False
      by (auto simp: nth_Cons split: nat.splits)
  qed
qed

lemma find_index_from_None:
  "find_index_from k P xs = None \<longleftrightarrow> (\<forall>x\<in>set xs. \<not> P x)"
  by (induction xs arbitrary: k) auto

lemma find_index_from_unique:
  assumes "n < length xs" "P (xs ! n)" "\<forall>m < length xs. P (xs ! m) \<longrightarrow> m = n"
  shows "find_index_from 0 P xs = Some n"
proof (cases "find_index_from 0 P xs")
  case None
  then show ?thesis using assms(1,2) by (auto simp: find_index_from_None)
next
  case (Some m)
  from find_index_from_Some[OF Some] have "m < length xs" "P (xs ! m)" by auto
  then show ?thesis using assms(3) Some by auto
qed

lemma children_ctx_simps [simp]:
  "children_ctx ti ci [] = []"
  "children_ctx ti ci (c # cs) = child_ctx ti ci c @ children_ctx ti (Suc ci) cs"
  by (simp_all add: children_ctx_def)

lemma doc_ctx_from_simps [simp]:
  "doc_ctx_from ti [] = []"
  "doc_ctx_from ti (t # ts) = children_ctx ti 0 (children t) @ doc_ctx_from (Suc ti) ts"
  by (simp_all add: doc_ctx_from_def table_ctx_def children_ctx_def)

lemma doc_ctx_from0: "doc_ctx d = doc_ctx_from 0 d"
  by (simp add: doc_ctx_def doc_ctx_from_def)

lemma child_ctx_rows [simp]: "map fst (child_ctx ti ci c) = child_rows c"
  by (cases c) (simp_all add: comp_def)

lemma children_ctx_rows [simp]: "map fst (children_ctx ti ci cs) = concat (map child_rows cs)"
  by (induction cs arbitrary: ci) simp_all

lemma doc_ctx_from_rows [simp]: "map fst (doc_ctx_from ti d) = doc_rows d"
  by (induction d arbitrary: ti) (simp_all add: doc_rows_Cons table_rows_def)

lemma doc_ctx_rows: "map fst (doc_ctx d) = doc_rows d"
  by (simp add: doc_ctx_from0)

lemma enumerate_map_Pair:
  "enumerate n (map (\<lambda>r. (r, x)) rs) = map (\<lambda>(p, r). (p, (r, x))) (enumerate n rs)"
  by (induction rs arbitrary: n) simp_all

lemma prune_rows_filter:
  "prune_rows delr n rs = map snd (filter (\<lambda>e. \<not> delr (fst e)) (enumerate n rs))"
  by (induction rs arbitrary: n) simp_all

lemma prune_children_rows:
  "concat (map child_rows (prune_children delr (\<lambda>ci. delg (ti, ci)) n ci cs)) =
     map (\<lambda>e. fst (snd e))
       (filter (\<lambda>e. \<not> ctx_del delr delg (\<lambda>t. False) e) (enumerate n (children_ctx ti ci cs)))"
proof (induction cs arbitrary: n ci)
  case Nil show ?case by simp
next
  case (Cons c cs)
  show ?case
  proof (cases c)
    case (TRow r)
    then show ?thesis using Cons[of "Suc n" "Suc ci"]
      by (simp add: ctx_del_def)
  next
    case (TGroup rs)
    have g: "map (\<lambda>e. fst (snd e))
               (filter (\<lambda>e. \<not> ctx_del delr delg (\<lambda>t. False) e)
                  (enumerate n (map (\<lambda>r. (r, ti, Some (ti, ci))) rs)))
             = (if delg (ti, ci) then [] else prune_rows delr n rs)"
      by (simp add: enumerate_map_Pair prune_rows_filter filter_map comp_def ctx_del_def
          split_def)
    show ?thesis using TGroup Cons[of "n + length rs" "Suc ci"] g
      by (simp add: enumerate_append_eq)
  qed
qed

lemma ctx_table_const:
  "e \<in> set (enumerate n (children_ctx ti ci cs)) \<Longrightarrow> fst (snd (snd e)) = ti"
proof (induction cs arbitrary: n ci)
  case Nil then show ?case by simp
next
  case (Cons c cs)
  then show ?case
    by (cases c) (auto simp: enumerate_append_eq enumerate_map_Pair)
qed

lemma prune_doc_rows:
  "doc_rows (prune_doc delr delg delt n ti d) =
     map (\<lambda>e. fst (snd e))
       (filter (\<lambda>e. \<not> ctx_del delr delg delt e) (enumerate n (doc_ctx_from ti d)))"
proof (induction d arbitrary: n ti)
  case Nil show ?case by simp
next
  case (Cons t ts)
  let ?E = "enumerate n (children_ctx ti 0 (children t))"
  have len: "length (children_ctx ti 0 (children t)) = length (table_rows t)"
    by (metis children_ctx_rows length_map table_rows_def)
  have a: "filter (\<lambda>e. \<not> ctx_del delr delg delt e) ?E =
           (if delt ti then [] else filter (\<lambda>e. \<not> ctx_del delr delg (\<lambda>t. False) e) ?E)"
  proof (cases "delt ti")
    case True
    then have "\<forall>e\<in>set ?E. ctx_del delr delg delt e"
      using ctx_table_const[of _ n ti 0 "children t"] by (simp add: ctx_del_def)
    then show ?thesis using True by (simp add: filter_empty_conv)
  next
    case False
    have "\<forall>e\<in>set ?E. ctx_del delr delg delt e = ctx_del delr delg (\<lambda>t. False) e"
      using ctx_table_const[of _ n ti 0 "children t"] False by (simp add: ctx_del_def)
    then show ?thesis using False by (simp cong: filter_cong)
  qed
  show ?case
    using Cons[of "n + length (table_rows t)" "Suc ti"]
    by (simp add: doc_rows_Cons enumerate_append_eq a len prune_children_rows)
qed

lemma map_const_update: "map (\<lambda>x. c) (rs[n := y]) = map (\<lambda>x. c) rs"
  by (rule nth_equalityI) (auto simp: nth_list_update)

lemma ctx_snd_setRowMarkup_children:
  "map snd (children_ctx ti ci (setRowMarkup_children n f cs)) = map snd (children_ctx ti ci cs)"
proof (induction n f cs arbitrary: ci rule: setRowMarkup_children.induct)
  case (1 n f) show ?case by simp
next
  case (2 n f r cs)
  then show ?case by (cases n) simp_all
next
  case (3 n f rs cs)
  then show ?case by (simp add: comp_def map_const_update)
qed

lemma length_setRowMarkup_children:
  "length (concat (map child_rows (setRowMarkup_children n f cs))) = length (concat (map child_rows cs))"
  by (simp add: rows_setRowMarkup_children)

lemma ctx_snd_setRowMarkup:
  "map snd (doc_ctx_from ti (setRowMarkup n f d)) = map snd (doc_ctx_from ti d)"
proof (induction n f d arbitrary: ti rule: setRowMarkup.induct)
  case (1 n f) show ?case by simp
next
  case (2 n f t ts)
  then show ?case by (simp add: ctx_snd_setRowMarkup_children)
qed

lemma clear_idem [simp]: "clearLinkedNext (clearLinkedNext r) = clearLinkedNext r"
  by (simp add: clearLinkedNext_def)

lemma rows_foldl_clear:
  "doc_rows (foldl (\<lambda>d info. setRowMarkup (ri_pos info) clearLinkedNext d) d infos)
   = map (clearAt (ri_pos ` set infos)) (enumerate 0 (doc_rows d))"
proof (induction infos arbitrary: d)
  case Nil
  show ?case by (simp add: clearAt_def enumerate_eq_zip map_snd_zip comp_def)
next
  case (Cons i infos)
  let ?d1 = "setRowMarkup (ri_pos i) clearLinkedNext d"
  have "map (clearAt (ri_pos ` set infos)) (enumerate 0 (doc_rows ?d1))
        = map (clearAt (ri_pos ` set (i # infos))) (enumerate 0 (doc_rows d))"
  proof (rule nth_equalityI)
    show "length (map (clearAt (ri_pos ` set infos)) (enumerate 0 (doc_rows ?d1)))
          = length (map (clearAt (ri_pos ` set (i # infos))) (enumerate 0 (doc_rows d)))"
      by (simp add: rows_setRowMarkup)
  next
    fix k assume "k < length (map (clearAt (ri_pos ` set infos)) (enumerate 0 (doc_rows ?d1)))"
    then have k: "k < length (doc_rows d)" by (simp add: rows_setRowMarkup split: if_splits)
    show "map (clearAt (ri_pos ` set infos)) (enumerate 0 (doc_rows ?d1)) ! k
          = map (clearAt (ri_pos ` set (i # infos))) (enumerate 0 (doc_rows d)) ! k"
      using k by (auto simp: rows_setRowMarkup nth_enumerate_eq clearAt_def nth_list_update)
  qed
  then show ?case using Cons[of ?d1] by simp
qed

lemma ctx_snd_foldl_clear:
  "map snd (doc_ctx (foldl (\<lambda>d info. setRowMarkup (ri_pos info) clearLinkedNext d) d infos))
   = map snd (doc_ctx d)"
  by (induction infos arbitrary: d) (simp_all add: doc_ctx_from0 ctx_snd_setRowMarkup)

lemma structure_fields:
  "rowsById (collectRowStructure d R)
     = foldl (\<lambda>m info. AList.update (ri_id info) info m) [] (List.map_filter infoOf (enumerate 0 (doc_ctx d)))"
  "rowsToDelete (collectRowStructure d R)
     = filter (\<lambda>info. ri_id info \<in> set R) (List.map_filter infoOf (enumerate 0 (doc_ctx d)))"
  "tp \<in> set (tablesToDelete (collectRowStructure d R))
     \<longleftrightarrow> tp < length d \<and> (\<forall>e\<in>set (enumerate 0 (doc_ctx d)).
            rowCountsAsKeep R (fst (snd e)) \<longrightarrow> fst (snd (snd e)) \<noteq> tp)"
  "gp \<in> set (groupsToDelete (collectRowStructure d R))
     \<longleftrightarrow> gp \<in> set (doc_groups d) \<and> (\<forall>e\<in>set (enumerate 0 (doc_ctx d)).
            rowCountsAsKeep R (fst (snd e)) \<longrightarrow> snd (snd (snd e)) \<noteq> Some gp)"
proof -
  have io: "(\<lambda>(pos, (r, ti, g)).
                       map_option (\<lambda>i. \<lparr>ri_id = i, ri_pos = pos, ri_tablePos = ti, ri_groupPos = g\<rparr>)
                         (asStringOrNull (rmRowId r))) = infoOf"
    by (auto simp: infoOf_def row_key_def fun_eq_iff)
  show "rowsById (collectRowStructure d R)
     = foldl (\<lambda>m info. AList.update (ri_id info) info m) [] (List.map_filter infoOf (enumerate 0 (doc_ctx d)))"
    by (simp add: collectRowStructure_def Let_def io)
  show "rowsToDelete (collectRowStructure d R)
     = filter (\<lambda>info. ri_id info \<in> set R) (List.map_filter infoOf (enumerate 0 (doc_ctx d)))"
    by (simp add: collectRowStructure_def Let_def io)
  show "tp \<in> set (tablesToDelete (collectRowStructure d R))
     \<longleftrightarrow> tp < length d \<and> (\<forall>e\<in>set (enumerate 0 (doc_ctx d)).
            rowCountsAsKeep R (fst (snd e)) \<longrightarrow> fst (snd (snd e)) \<noteq> tp)"
    by (simp add: collectRowStructure_def Let_def filter_empty_conv split_def) fastforce
  show "gp \<in> set (groupsToDelete (collectRowStructure d R))
     \<longleftrightarrow> gp \<in> set (doc_groups d) \<and> (\<forall>e\<in>set (enumerate 0 (doc_ctx d)).
            rowCountsAsKeep R (fst (snd e)) \<longrightarrow> snd (snd (snd e)) \<noteq> Some gp)"
    by (simp add: collectRowStructure_def Let_def filter_empty_conv split_def) fastforce
qed

lemma in_infos:
  "info \<in> set (List.map_filter infoOf es) \<longleftrightarrow> (\<exists>e\<in>set es. infoOf e = Some info)"
  by (induction es) (auto simp: List.map_filter_simps split: option.splits)

lemma infoOf_Some:
  "infoOf e = Some info \<longleftrightarrow>
     row_key (fst (snd e)) = Some (ri_id info) \<and> ri_pos info = fst e \<and>
     ri_tablePos info = fst (snd (snd e)) \<and> ri_groupPos info = snd (snd (snd e))"
  by (cases "row_key (fst (snd e))") (auto simp: infoOf_def)

lemma enumerate_fst_inj:
  "e \<in> set (enumerate n xs) \<Longrightarrow> e' \<in> set (enumerate n xs) \<Longrightarrow> fst e = fst e' \<Longrightarrow> e = e'"
  by (auto simp: in_set_enumerate_eq prod_eq_iff)

lemma del_iff_not_keep:
  assumes e: "e \<in> set (enumerate 0 (doc_ctx d))"
  shows "ctx_del (\<lambda>n. n \<in> ri_pos ` set (rowDeletions (collectRowStructure d R)))
           (\<lambda>gp. gp \<in> set (groupsToDelete (collectRowStructure d R)))
           (\<lambda>tp. tp \<in> set (tablesToDelete (collectRowStructure d R))) e
         \<longleftrightarrow> \<not> rowCountsAsKeep R (fst (snd e))"
proof
  let ?st = "collectRowStructure d R"
  assume del: "ctx_del (\<lambda>n. n \<in> ri_pos ` set (rowDeletions ?st))
           (\<lambda>gp. gp \<in> set (groupsToDelete ?st)) (\<lambda>tp. tp \<in> set (tablesToDelete ?st)) e"
  show "\<not> rowCountsAsKeep R (fst (snd e))"
  proof
    assume keep: "rowCountsAsKeep R (fst (snd e))"
    have 1: "fst (snd (snd e)) \<notin> set (tablesToDelete ?st)"
      using e keep by (auto simp: structure_fields(3))
    have 2: "\<not> (case snd (snd (snd e)) of None \<Rightarrow> False | Some gp \<Rightarrow> gp \<in> set (groupsToDelete ?st))"
      using e keep by (auto simp: structure_fields(4) split: option.splits)
    have 3: "fst e \<notin> ri_pos ` set (rowDeletions ?st)"
    proof
      assume "fst e \<in> ri_pos ` set (rowDeletions ?st)"
      then obtain info where i: "info \<in> set (rowsToDelete ?st)" "ri_pos info = fst e"
        by (auto simp: rowDeletions_def)
      then obtain e' where e': "e' \<in> set (enumerate 0 (doc_ctx d))" "infoOf e' = Some info"
        "ri_id info \<in> set R"
        by (auto simp: structure_fields(2) in_infos)
      have "e' = e" using enumerate_fst_inj[OF e'(1) e] e'(2) i(2) by (simp add: infoOf_Some)
      then have "row_key (fst (snd e)) = Some (ri_id info)" using e'(2) by (simp add: infoOf_Some)
      then show False using keep e'(3) by (simp add: rowCountsAsKeep_def row_key_def)
    qed
    show False using del 1 2 3 by (simp add: ctx_del_def)
  qed
next
  let ?st = "collectRowStructure d R"
  assume nk: "\<not> rowCountsAsKeep R (fst (snd e))"
  then obtain i where i: "row_key (fst (snd e)) = Some i" "i \<in> set R"
    by (auto simp: rowCountsAsKeep_def row_key_def split: option.splits)
  let ?info = "\<lparr>ri_id = i, ri_pos = fst e, ri_tablePos = fst (snd (snd e)), ri_groupPos = snd (snd (snd e))\<rparr>"
  have io: "infoOf e = Some ?info" using i(1) by (simp add: infoOf_def)
  have td: "?info \<in> set (rowsToDelete ?st)"
    using e io i(2) by (auto simp: structure_fields(2) in_infos)
  show "ctx_del (\<lambda>n. n \<in> ri_pos ` set (rowDeletions ?st))
           (\<lambda>gp. gp \<in> set (groupsToDelete ?st)) (\<lambda>tp. tp \<in> set (tablesToDelete ?st)) e"
  proof (cases "row_survives ?st ?info")
    case True
    then have "?info \<in> set (rowDeletions ?st)" using td by (simp add: rowDeletions_def)
    then have "fst e \<in> ri_pos ` set (rowDeletions ?st)" by force
    then show ?thesis by (simp add: ctx_del_def)
  next
    case False
    then show ?thesis by (auto simp: row_survives_def ctx_del_def split: option.splits)
  qed
qed

lemma map_of_foldl_update:
  "map_of (foldl (\<lambda>m x. AList.update (key x) x m) m0 xs) k =
     (case map_of (rev (map (\<lambda>x. (key x, x)) xs)) k of None \<Rightarrow> map_of m0 k | Some v \<Rightarrow> Some v)"
proof (induction xs arbitrary: m0)
  case Nil show ?case by simp
next
  case (Cons x xs)
  show ?case
    by (simp add: Cons update_conv' map_add_def split: option.splits)
qed

lemma infos_ids:
  "map ri_id (List.map_filter infoOf (enumerate n xs)) = List.map_filter row_key (map fst xs)"
proof (induction xs arbitrary: n)
  case Nil show ?case by (simp add: List.map_filter_simps)
next
  case (Cons x xs)
  have h: "infoOf (n, x) = map_option (\<lambda>i. \<lparr>ri_id = i, ri_pos = n, ri_tablePos = fst (snd x),
                                  ri_groupPos = snd (snd x)\<rparr>) (row_key (fst x))"
    by (simp add: infoOf_def)
  show ?case
    by (cases "row_key (fst x)") (simp_all add: List.map_filter_simps Cons h)
qed

lemma rowsById_lookup:
  assumes dist: "distinct (List.map_filter row_key (doc_rows d))"
  shows "map_of (rowsById (collectRowStructure d R)) k = Some info \<longleftrightarrow>
           info \<in> set (List.map_filter infoOf (enumerate 0 (doc_ctx d))) \<and> ri_id info = k"
proof -
  let ?infos = "List.map_filter infoOf (enumerate 0 (doc_ctx d))"
  have d1: "distinct (map ri_id ?infos)"
    using dist by (simp add: infos_ids doc_ctx_rows)
  have d2: "distinct (map fst (rev (map (\<lambda>x. (ri_id x, x)) ?infos)))"
    using d1 by (simp add: rev_map[symmetric] comp_def)
  have "map_of (rowsById (collectRowStructure d R)) k
        = map_of (rev (map (\<lambda>x. (ri_id x, x)) ?infos)) k"
    by (simp add: structure_fields(1) map_of_foldl_update split: option.splits)
  also have "\<dots> = Some info \<longleftrightarrow> (k, info) \<in> set (rev (map (\<lambda>x. (ri_id x, x)) ?infos))"
    using d2 by (rule map_of_eq_Some_iff)
  finally show ?thesis by auto
qed

lemma clear_pos_iff:
  assumes dist: "distinct (List.map_filter row_key (doc_rows d))"
    and e: "e \<in> set (enumerate 0 (doc_ctx d))"
    and keep: "rowCountsAsKeep R (fst (snd e))"
  shows "fst e \<in> ri_pos ` set (cleanupClears (collectRowStructure d R) Cs)
         \<longleftrightarrow> (\<exists>k\<in>set Cs. row_key (fst (snd e)) = Some k)"
proof
  let ?st = "collectRowStructure d R"
  assume "fst e \<in> ri_pos ` set (cleanupClears ?st Cs)"
  then obtain info k where i: "ri_pos info = fst e" "k \<in> set Cs" "map_of (rowsById ?st) k = Some info"
    by (auto simp: cleanupClears_def in_infos List.map_filter_def)
  then have "info \<in> set (List.map_filter infoOf (enumerate 0 (doc_ctx d)))" "ri_id info = k"
    using rowsById_lookup[OF dist] by auto
  then obtain e' where e': "e' \<in> set (enumerate 0 (doc_ctx d))" "infoOf e' = Some info"
    by (auto simp: in_infos)
  have "e' = e" using enumerate_fst_inj[OF e'(1) e] e'(2) i(1) by (simp add: infoOf_Some)
  then have "row_key (fst (snd e)) = Some k" using e'(2) \<open>ri_id info = k\<close> by (simp add: infoOf_Some)
  then show "\<exists>k\<in>set Cs. row_key (fst (snd e)) = Some k" using i(2) by blast
next
  let ?st = "collectRowStructure d R"
  assume "\<exists>k\<in>set Cs. row_key (fst (snd e)) = Some k"
  then obtain k where k: "k \<in> set Cs" "row_key (fst (snd e)) = Some k" by blast
  let ?info = "\<lparr>ri_id = k, ri_pos = fst e, ri_tablePos = fst (snd (snd e)), ri_groupPos = snd (snd (snd e))\<rparr>"
  have io: "infoOf e = Some ?info" using k(2) by (simp add: infoOf_def)
  have "?info \<in> set (List.map_filter infoOf (enumerate 0 (doc_ctx d)))"
    using e io by (auto simp: in_infos)
  then have look: "map_of (rowsById ?st) k = Some ?info"
    using rowsById_lookup[OF dist, of R k ?info] by simp
  have surv: "row_survives ?st ?info"
    using e keep by (auto simp: row_survives_def structure_fields(3,4) split: option.splits)
  have "?info \<in> set (cleanupClears ?st Cs)"
    using look k(1) surv by (auto simp: cleanupClears_def List.map_filter_def intro!: image_eqI[where x=k])
  then show "fst e \<in> ri_pos ` set (cleanupClears ?st Cs)" by force
qed

lemma map_snd_enumerate': "map (\<lambda>e. f (snd e)) (enumerate n xs) = map f xs"
  by (induction xs arbitrary: n) simp_all

lemma zip_fst_snd: "zip (map fst xs) (map snd xs) = xs"
  by (induction xs) auto

lemma cleanupDoc_rows:
  assumes dist: "distinct (List.map_filter row_key (doc_rows d))"
  shows "doc_rows (cleanupDoc (collectRowStructure d R) (cleanupClears (collectRowStructure d R) Cs) d)
         = map (clearIn Cs) (filter (rowCountsAsKeep R) (doc_rows d))"
proof -
  let ?st = "collectRowStructure d R"
  let ?clears = "cleanupClears ?st Cs"
  let ?P = "ri_pos ` set ?clears"
  let ?cleared = "foldl (\<lambda>d info. setRowMarkup (ri_pos info) clearLinkedNext d) d ?clears"
  let ?E = "enumerate 0 (doc_ctx d)"
  let ?del = "ctx_del (\<lambda>n. n \<in> ri_pos ` set (rowDeletions ?st))
           (\<lambda>gp. gp \<in> set (groupsToDelete ?st)) (\<lambda>tp. tp \<in> set (tablesToDelete ?st))"
  let ?h = "\<lambda>e. (fst e, (clearAt ?P (fst e, fst (snd e)), snd (snd e)))"
  have ctx: "doc_ctx ?cleared = map (\<lambda>e. (clearAt ?P (fst e, fst (snd e)), snd (snd e))) ?E"
  proof -
    have 1: "map fst (doc_ctx ?cleared) = map (clearAt ?P) (enumerate 0 (doc_rows d))"
      by (simp add: doc_ctx_rows rows_foldl_clear)
    have 2: "map snd (doc_ctx ?cleared) = map snd (doc_ctx d)" by (rule ctx_snd_foldl_clear)
    have "doc_ctx ?cleared = zip (map fst (doc_ctx ?cleared)) (map snd (doc_ctx ?cleared))"
      by (simp add: zip_fst_snd)
    also have "\<dots> = zip (map (clearAt ?P) (enumerate 0 (doc_rows d))) (map snd (doc_ctx d))"
      by (simp only: 1 2)
    also have "\<dots> = map (\<lambda>e. (clearAt ?P (fst e, fst (snd e)), snd (snd e))) ?E"
      by (rule nth_equalityI)
         (auto simp: nth_enumerate_eq doc_ctx_rows[symmetric] simp del: doc_ctx_from_rows)
    finally show ?thesis .
  qed
  have en: "enumerate 0 (doc_ctx ?cleared) = map ?h ?E"
    unfolding ctx by (rule nth_equalityI) (auto simp: nth_enumerate_eq)
  have delh: "\<And>e. ?del (?h e) = ?del e" by (simp add: ctx_del_def)
  have "doc_rows (cleanupDoc ?st ?clears d)
        = map (\<lambda>e. fst (snd e)) (filter (\<lambda>e. \<not> ?del e) (map ?h ?E))"
    unfolding cleanupDoc_def prune_doc_rows doc_ctx_from0[symmetric] en ..
  also have "\<dots> = map (\<lambda>e. clearAt ?P (fst e, fst (snd e))) (filter (\<lambda>e. \<not> ?del e) ?E)"
    by (simp add: filter_map comp_def delh)
  also have "\<dots> = map (\<lambda>e. clearAt ?P (fst e, fst (snd e)))
                     (filter (\<lambda>e. rowCountsAsKeep R (fst (snd e))) ?E)"
  proof -
    have "filter (\<lambda>e. \<not> ?del e) ?E = filter (\<lambda>e. rowCountsAsKeep R (fst (snd e))) ?E"
      by (rule filter_cong[OF refl]) (simp only: del_iff_not_keep not_not)
    then show ?thesis by (simp only:)
  qed
  also have "\<dots> = map (\<lambda>e. clearIn Cs (fst (snd e)))
                     (filter (\<lambda>e. rowCountsAsKeep R (fst (snd e))) ?E)"
  proof (rule map_cong[OF refl])
    fix e assume "e \<in> set (filter (\<lambda>e. rowCountsAsKeep R (fst (snd e))) ?E)"
    then have e: "e \<in> set ?E" and k: "rowCountsAsKeep R (fst (snd e))" by auto
    show "clearAt ?P (fst e, fst (snd e)) = clearIn Cs (fst (snd e))"
      unfolding clearAt_def clearIn_def list_ex_iff
      using clear_pos_iff[OF dist e k, of Cs] by simp
  qed
  also have "\<dots> = map (clearIn Cs) (filter (rowCountsAsKeep R) (map (\<lambda>e. fst (snd e)) ?E))"
    by (simp add: filter_map comp_def)
  also have "map (\<lambda>e. fst (snd e)) ?E = doc_rows d"
    by (simp add: map_snd_enumerate' doc_ctx_rows)
  finally show ?thesis .
qed

lemma cleanupTransaction_rows:
  assumes "distinct (List.map_filter row_key (doc_rows d))"
    and "cleanupTransaction d R Cs = Some t"
  shows "doc_rows (tr_doc t) = map (clearIn Cs) (filter (rowCountsAsKeep R) (doc_rows d))"
    and "tr_rmRowCleanup t"
  using assms(2) cleanupDoc_rows[OF assms(1), of R Cs]
  by (auto simp: cleanupTransaction_def Let_def cleanupTr_def split: if_splits)

lemma update_fresh: "k \<notin> fst ` set m \<Longrightarrow> AList.update k v m = m @ [(k, v)]"
  by (induction m) auto

lemma keyed_keys: "map fst (List.map_filter keyed (enumerate n rs)) = List.map_filter row_key rs"
proof (induction rs arbitrary: n)
  case Nil show ?case by (simp add: List.map_filter_simps)
next
  case (Cons r rs)
  have h: "keyed (n, r) = map_option (\<lambda>i. (i, (r, n))) (row_key r)" by (simp add: keyed_def)
  show ?case by (cases "row_key r") (simp_all add: List.map_filter_simps Cons h)
qed

lemma collect_fold_distinct:
  assumes "distinct (map fst m0 @ List.map_filter row_key rs)"
  shows "foldl (\<lambda>m (pos, r). case asStringOrNull (rmRowId r) of
                             None \<Rightarrow> m
                           | Some i \<Rightarrow> AList.update i (r, pos) m) m0 (enumerate n rs)
         = m0 @ List.map_filter keyed (enumerate n rs)"
  using assms
proof (induction rs arbitrary: m0 n)
  case Nil show ?case by (simp add: List.map_filter_simps)
next
  case (Cons r rs)
  have h: "keyed (n, r) = map_option (\<lambda>i. (i, (r, n))) (row_key r)" by (simp add: keyed_def)
  show ?case
  proof (cases "row_key r")
    case None
    then show ?thesis using Cons.prems Cons.IH[of m0 "Suc n"]
      by (simp add: List.map_filter_simps h row_key_def)
  next
    case (Some i)
    have fresh: "i \<notin> fst ` set m0" using Cons.prems Some by (auto simp: List.map_filter_simps)
    have d: "distinct (map fst (m0 @ [(i, (r, n))]) @ List.map_filter row_key rs)"
      using Cons.prems Some by (auto simp: List.map_filter_simps)
    show ?thesis using Some Cons.IH[OF d, of "Suc n"] fresh
      by (simp add: List.map_filter_simps h row_key_def[symmetric] update_fresh)
  qed
qed

lemma collectRowsById_distinct:
  assumes "distinct (List.map_filter row_key (doc_rows d))"
  shows "collectRowsById d = List.map_filter keyed (enumerate 0 (doc_rows d))"
  unfolding collectRowsById_def using collect_fold_distinct[of "[]" "doc_rows d" 0] assms by simp

lemma collect_keys:
  assumes "distinct (List.map_filter row_key (doc_rows d))"
  shows "map fst (collectRowsById d) = List.map_filter row_key (doc_rows d)"
  by (simp add: collectRowsById_distinct[OF assms] keyed_keys)

lemma in_map_filter: "y \<in> set (List.map_filter f xs) \<longleftrightarrow> (\<exists>x\<in>set xs. f x = Some y)"
  by (induction xs) (auto simp: List.map_filter_simps split: option.splits)

lemma collect_lookup:
  assumes dist: "distinct (List.map_filter row_key (doc_rows d))"
  shows "map_of (collectRowsById d) k = Some (r, p) \<longleftrightarrow>
           p < length (doc_rows d) \<and> doc_rows d ! p = r \<and> row_key r = Some k"
proof -
  have dk: "distinct (map fst (collectRowsById d))" using dist by (simp add: collect_keys[OF dist])
  have "map_of (collectRowsById d) k = Some (r, p) \<longleftrightarrow> (k, (r, p)) \<in> set (collectRowsById d)"
    using dk by (rule map_of_eq_Some_iff)
  also have "\<dots> \<longleftrightarrow> (\<exists>e\<in>set (enumerate 0 (doc_rows d)). keyed e = Some (k, (r, p)))"
    by (simp add: collectRowsById_distinct[OF dist] in_map_filter)
  also have "\<dots> \<longleftrightarrow> p < length (doc_rows d) \<and> doc_rows d ! p = r \<and> row_key r = Some k"
  proof
    assume "\<exists>e\<in>set (enumerate 0 (doc_rows d)). keyed e = Some (k, (r, p))"
    then show "p < length (doc_rows d) \<and> doc_rows d ! p = r \<and> row_key r = Some k"
      by (auto simp: in_set_enumerate_eq keyed_def)
  next
    assume a: "p < length (doc_rows d) \<and> doc_rows d ! p = r \<and> row_key r = Some k"
    then have "(p, r) \<in> set (enumerate 0 (doc_rows d))" by (simp add: in_set_enumerate_eq)
    moreover have "keyed (p, r) = Some (k, (r, p))" using a by (simp add: keyed_def)
    ultimately show "\<exists>e\<in>set (enumerate 0 (doc_rows d)). keyed e = Some (k, (r, p))" by blast
  qed
  finally show ?thesis .
qed

lemma collect_lookup_None:
  assumes dist: "distinct (List.map_filter row_key (doc_rows d))"
  shows "map_of (collectRowsById d) k = None \<longleftrightarrow> Some k \<notin> row_key ` set (doc_rows d)"
proof -
  have "map_of (collectRowsById d) k = None \<longleftrightarrow> k \<notin> set (map fst (collectRowsById d))"
    by (simp add: map_of_eq_None_iff)
  also have "\<dots> \<longleftrightarrow> k \<notin> set (List.map_filter row_key (doc_rows d))"
    by (simp only: collect_keys[OF dist])
  also have "\<dots> \<longleftrightarrow> Some k \<notin> row_key ` set (doc_rows d)"
    by (auto simp: in_map_filter image_iff)
  finally show ?thesis .
qed

lemma filter_eq_single: "distinct xs \<Longrightarrow> b \<in> set xs \<Longrightarrow> filter (\<lambda>x. x = b) xs = [b]"
  by (induction xs) (auto simp: filter_empty_conv)

lemma map_filter_append: "List.map_filter f (xs @ ys) = List.map_filter f xs @ List.map_filter f ys"
  by (simp add: List.map_filter_def)

lemma map_filter_split:
  "j < length rs \<Longrightarrow>
   List.map_filter f rs = List.map_filter f (take j rs) @ (case f (rs ! j) of None \<Rightarrow> [] | Some y \<Rightarrow> [y])
                         @ List.map_filter f (drop (Suc j) rs)"
proof -
  assume j: "j < length rs"
  have "rs = take j rs @ rs ! j # drop (Suc j) rs" using j by (simp add: id_take_nth_drop)
  then have "List.map_filter f rs = List.map_filter f (take j rs @ [rs ! j] @ drop (Suc j) rs)" by simp
  then show ?thesis
    by (simp only: map_filter_append) (simp add: List.map_filter_simps split: option.splits)
qed

lemma cascade_marks:
  assumes dist: "distinct (List.map_filter row_key (doc_rows d))"
    and j: "j < length (doc_rows d)" and i: "i < length (doc_rows d)" and k: "k < length (doc_rows d)"
    and ij: "i \<noteq> j"
    and kb: "row_key (doc_rows d ! j) = Some b"
    and ka: "row_key (doc_rows d ! i) = Some a"
    and kc: "row_key (doc_rows d ! k) = Some c"
    and prev: "asStringOrNull (rmLinkedPrev (doc_rows d ! j)) = Some a"
    and nxt: "asStringOrNull (rmLinkedNext (doc_rows d ! j)) = Some c"
    and tail: "asStringOrNull (rmLinkedNext (doc_rows d ! k)) = None"
  shows "cleanupDeletedRowChains d (deleteRow j d) = cleanupTransaction (deleteRow j d) [c] [a]"
proof -
  let ?rs = "doc_rows d" and ?new = "deleteRow j d"
  let ?K = "List.map_filter row_key ?rs"
  have rows_new: "doc_rows ?new = take j ?rs @ drop (Suc j) ?rs" by (rule rows_deleteRow)
  have Ksplit: "?K = List.map_filter row_key (take j ?rs) @ [b] @ List.map_filter row_key (drop (Suc j) ?rs)"
    using map_filter_split[OF j, of row_key] kb by simp
  have Knew: "List.map_filter row_key (doc_rows ?new)
              = List.map_filter row_key (take j ?rs) @ List.map_filter row_key (drop (Suc j) ?rs)"
    by (simp add: rows_new map_filter_append)
  have dist_new: "distinct (List.map_filter row_key (doc_rows ?new))"
    using dist unfolding Ksplit Knew by auto
  have b_notin: "b \<notin> set (List.map_filter row_key (doc_rows ?new))"
    using dist unfolding Ksplit Knew by auto
  have others: "\<And>x. x \<in> set ?K \<Longrightarrow> x \<noteq> b \<Longrightarrow> x \<in> set (List.map_filter row_key (doc_rows ?new))"
    unfolding Ksplit Knew by auto
  have b_in: "b \<in> set ?K" unfolding Ksplit by simp
  have keyset: "fst ` set (collectRowsById ?new) = set (List.map_filter row_key (doc_rows ?new))"
    using collect_keys[OF dist_new] by (metis set_map)
  have none_iff: "\<And>x. x \<in> set ?K \<Longrightarrow> (map_of (collectRowsById ?new) x = None) = (x = b)"
    using b_notin others
    by (auto simp: map_of_eq_None_iff keyset)
  have del: "deletedRowIds (collectRowsById d) (collectRowsById ?new) = [b]"
  proof -
    have "filter (\<lambda>x. map_of (collectRowsById ?new) x = None) ?K = filter (\<lambda>x. x = b) ?K"
      by (rule filter_cong[OF refl]) (simp add: none_iff)
    then show ?thesis
      by (simp add: deletedRowIds_def collect_keys[OF dist] filter_eq_single[OF dist b_in])
  qed
  have lb: "map_of (collectRowsById d) b = Some (?rs ! j, j)"
    using collect_lookup[OF dist, of b "?rs ! j" j] j kb by simp
  have lc: "map_of (collectRowsById d) c = Some (?rs ! k, k)"
    using collect_lookup[OF dist, of c "?rs ! k" k] k kc by simp
  have a_new: "map_of (collectRowsById ?new) a \<noteq> None"
  proof -
    have "a \<in> set ?K" using i ka by (auto simp: in_map_filter)
    moreover have "a \<noteq> b"
    proof
      assume "a = b"
      then have "map_of (collectRowsById d) b = Some (?rs ! i, i)"
        using collect_lookup[OF dist, of a "?rs ! i" i] i ka by simp
      then show False using lb ij by simp
    qed
    ultimately show ?thesis using none_iff by simp
  qed
  have walk: "walk_chain (collectRowsById d) [] (Some c) = [c]"
    by (simp add: lc tail)
  have marks: "chainMarks (collectRowsById d) (collectRowsById ?new) [b] = ([c], [a])"
    using a_new by (simp add: chainMarks_def mark_deleted_def lb lc tail prev nxt set_add_def Let_def)
  have ne: "length (collectRowsById d) \<noteq> 0" using lb by auto
  show ?thesis
    using ne by (simp add: cleanupDeletedRowChains_def Let_def del marks)
qed

lemma row_key_clearIn [simp]: "row_key (clearIn Cs r) = row_key r"
  by (simp add: clearIn_def clearLinkedNext_def row_key_def)

lemma keep_single: "rowCountsAsKeep [c] r = (row_key r \<noteq> Some c)"
  by (auto simp: rowCountsAsKeep_def row_key_def split: option.splits)

lemma cleanupTransaction_Some:
  assumes dist: "distinct (List.map_filter row_key (doc_rows d))"
    and r: "r \<in> set (doc_rows d)" "rowCountsAsKeep R r" "row_key r = Some k" "k \<in> set Cs"
  shows "\<exists>t. cleanupTransaction d R Cs = Some t"
proof -
  from r(1) obtain p where p: "p < length (doc_rows d)" "doc_rows d ! p = r"
    by (auto simp: in_set_conv_nth)
  have len: "length (doc_ctx d) = length (doc_rows d)"
    by (metis doc_ctx_rows length_map)
  let ?e = "(p, doc_ctx d ! p)"
  have e: "?e \<in> set (enumerate 0 (doc_ctx d))" using p(1) len by (simp add: in_set_enumerate_eq)
  have row: "fst (snd ?e) = r"
    using p len doc_ctx_rows[of d] by (metis nth_map snd_conv)
  have "fst ?e \<in> ri_pos ` set (cleanupClears (collectRowStructure d R) Cs)"
    using clear_pos_iff[OF dist e, of R Cs] r row by auto
  then have "cleanupClears (collectRowStructure d R) Cs \<noteq> []" by auto
  then show ?thesis
    by (simp add: cleanupTransaction_def Let_def)
qed

subsection \<open>Claim about the cascading delete\<close>

text \<open>
  Claim C7, as the code has it. For a chain of three rows A, B, C the reconciler does not
  remove A when B is deleted: the first statement is the run on a three-row table, where
  the follow-up transaction leaves exactly row A, with its \<open>rmLinkedNext\<close> cleared. In
  general (row ids unique in the document, C the tail of the chain): deleting B makes
  the reconciler answer with one transaction that removes C, clears \<open>rmLinkedNext\<close> of A
  and keeps A and every other row as it is.
\<close>

theorem cascade_keeps_upstream_row:
  "cleanupDeletedRowChains chainABC (deleteRow 1 chainABC)
     = Some (cleanupTr [\<lparr>locked = False, children = [TRow (chainRow ''A'' None None)]\<rparr>] 2) \<and>
   map rmRowId (doc_rows [\<lparr>locked = False, children = [TRow (chainRow ''A'' None None)]\<rparr>])
     = [Some ''A'']"
  by code_simp

theorem cascade_clears_upstream_pointer:
  assumes dist: "distinct (List.map_filter row_key (doc_rows d))"
    and i: "i < length (doc_rows d)" and j: "j < length (doc_rows d)" and k: "k < length (doc_rows d)"
    and ne: "i \<noteq> j" "i \<noteq> k" "j \<noteq> k"
    and ka: "row_key (doc_rows d ! i) = Some a"
    and kb: "row_key (doc_rows d ! j) = Some b"
    and kc: "row_key (doc_rows d ! k) = Some c"
    and ab: "asStringOrNull (rmLinkedNext (doc_rows d ! i)) = Some b"
    and ba: "asStringOrNull (rmLinkedPrev (doc_rows d ! j)) = Some a"
    and bc: "asStringOrNull (rmLinkedNext (doc_rows d ! j)) = Some c"
    and tail: "asStringOrNull (rmLinkedNext (doc_rows d ! k)) = None"
  shows "\<exists>t. cleanupDeletedRowChains d (deleteRow j d) = Some t \<and> tr_rmRowCleanup t \<and>
           doc_rows (tr_doc t)
             = map (clearIn [a]) (filter (\<lambda>r. row_key r \<noteq> Some c) (doc_rows (deleteRow j d))) \<and>
           clearLinkedNext (doc_rows d ! i) \<in> set (doc_rows (tr_doc t)) \<and>
           list_all (\<lambda>r. row_key r \<noteq> Some b \<and> row_key r \<noteq> Some c) (doc_rows (tr_doc t))"
proof -
  let ?rs = "doc_rows d" and ?new = "deleteRow j d"
  have rows_new: "doc_rows ?new = take j ?rs @ drop (Suc j) ?rs" by (rule rows_deleteRow)
  have Ksplit: "List.map_filter row_key ?rs
        = List.map_filter row_key (take j ?rs) @ [b] @ List.map_filter row_key (drop (Suc j) ?rs)"
    using map_filter_split[OF j, of row_key] kb by simp
  have Knew: "List.map_filter row_key (doc_rows ?new)
              = List.map_filter row_key (take j ?rs) @ List.map_filter row_key (drop (Suc j) ?rs)"
    by (simp add: rows_new map_filter_append)
  have dist_new: "distinct (List.map_filter row_key (doc_rows ?new))"
    using dist unfolding Ksplit Knew by auto
  have b_notin: "b \<notin> set (List.map_filter row_key (doc_rows ?new))"
    using dist unfolding Ksplit Knew by auto
  have a_ne_c: "a \<noteq> c"
  proof
    assume "a = c"
    then have "(?rs ! i, i) = (?rs ! k, k)"
      using collect_lookup[OF dist, of a "?rs ! i" i] collect_lookup[OF dist, of a "?rs ! k" k]
        i k ka kc by simp
    then show False using ne(2) by simp
  qed
  have A_new: "?rs ! i \<in> set (doc_rows ?new)"
  proof (cases "i < j")
    case True
    then have "?rs ! i \<in> set (take j ?rs)" using j by (auto simp: in_set_conv_nth)
    then show ?thesis by (simp add: rows_new)
  next
    case False
    then have "j < i" using ne(1) by simp
    then have "?rs ! i \<in> set (drop (Suc j) ?rs)"
      using i by (auto simp: in_set_conv_nth intro!: exI[where x="i - Suc j"])
    then show ?thesis by (simp add: rows_new)
  qed
  have eq: "cleanupDeletedRowChains d ?new = cleanupTransaction ?new [c] [a]"
    by (rule cascade_marks[OF dist j i k ne(1) kb ka kc ba bc tail])
  have keepA: "rowCountsAsKeep [c] (?rs ! i)" using ka a_ne_c by (simp add: keep_single)
  obtain t where t: "cleanupTransaction ?new [c] [a] = Some t"
    using cleanupTransaction_Some[OF dist_new A_new keepA ka, of "[a]"] by auto
  have rows: "doc_rows (tr_doc t)
             = map (clearIn [a]) (filter (\<lambda>r. row_key r \<noteq> Some c) (doc_rows ?new))"
    using cleanupTransaction_rows(1)[OF dist_new t] by (simp add: keep_single[abs_def])
  have meta: "tr_rmRowCleanup t" by (rule cleanupTransaction_rows(2)[OF dist_new t])
  have inA: "clearLinkedNext (?rs ! i) \<in> set (doc_rows (tr_doc t))"
  proof -
    have "?rs ! i \<in> set (filter (\<lambda>r. row_key r \<noteq> Some c) (doc_rows ?new))"
      using A_new ka a_ne_c by simp
    moreover have "clearIn [a] (?rs ! i) = clearLinkedNext (?rs ! i)" using ka by (simp add: clearIn_def)
    ultimately show ?thesis unfolding rows by force
  qed
  have none: "list_all (\<lambda>r. row_key r \<noteq> Some b \<and> row_key r \<noteq> Some c) (doc_rows (tr_doc t))"
    unfolding rows list_all_iff using b_notin by (auto simp: in_map_filter)
  show ?thesis using eq t meta rows inA none by simp
qed

theorem cascade_clears_upstream_pointer_witness:
  "distinct (List.map_filter row_key (doc_rows chainABC)) \<and>
   row_key (doc_rows chainABC ! 0) = Some ''A'' \<and>
   row_key (doc_rows chainABC ! 1) = Some ''B'' \<and>
   row_key (doc_rows chainABC ! 2) = Some ''C'' \<and>
   asStringOrNull (rmLinkedNext (doc_rows chainABC ! 0)) = Some ''B'' \<and>
   asStringOrNull (rmLinkedPrev (doc_rows chainABC ! 1)) = Some ''A'' \<and>
   asStringOrNull (rmLinkedNext (doc_rows chainABC ! 1)) = Some ''C'' \<and>
   asStringOrNull (rmLinkedNext (doc_rows chainABC ! 2)) = None \<and>
   (\<exists>t. cleanupDeletedRowChains chainABC (deleteRow 1 chainABC) = Some t \<and>
        clearLinkedNext (doc_rows chainABC ! 0) \<in> set (doc_rows (tr_doc t)) \<and>
        list_all (\<lambda>r. row_key r \<noteq> Some ''B'' \<and> row_key r \<noteq> Some ''C'') (doc_rows (tr_doc t)))"
proof -
  have dist: "distinct (List.map_filter row_key (doc_rows chainABC))" by code_simp
  have l: "0 < length (doc_rows chainABC)" "1 < length (doc_rows chainABC)"
    "2 < length (doc_rows chainABC)" by code_simp+
  have ne: "(0::nat) \<noteq> 1" "(0::nat) \<noteq> 2" "(1::nat) \<noteq> 2" by simp_all
  have ka: "row_key (doc_rows chainABC ! 0) = Some ''A''" by code_simp
  have kb: "row_key (doc_rows chainABC ! 1) = Some ''B''" by code_simp
  have kc: "row_key (doc_rows chainABC ! 2) = Some ''C''" by code_simp
  have ab: "asStringOrNull (rmLinkedNext (doc_rows chainABC ! 0)) = Some ''B''" by code_simp
  have ba: "asStringOrNull (rmLinkedPrev (doc_rows chainABC ! 1)) = Some ''A''" by code_simp
  have bc: "asStringOrNull (rmLinkedNext (doc_rows chainABC ! 1)) = Some ''C''" by code_simp
  have tl: "asStringOrNull (rmLinkedNext (doc_rows chainABC ! 2)) = None" by code_simp
  note r = cascade_clears_upstream_pointer[OF dist l ne ka kb kc ab ba bc tl]
  show ?thesis using dist ka kb kc ab ba bc tl r by blast
qed

subsection \<open>Claim about the commands\<close>



















subsection \<open>Claim about the paginate step\<close>






lemma atomsOf_simps [simp]:
  "atomsOf [] = []" "atomsOf (b # bs) = atoms b @ atomsOf bs"
  by (simp_all add: atomsOf_def)







subsection \<open>Claim about merge-back\<close>










end
